theory Spec2Isabelle
  imports Complex_Main
begin

section \<open>The Wilson update kernel (Wilson.py, lines 24-95)\<close>

text \<open>
  The kernel is CUDA C. FLOATTYPE values are read as real numbers (rounding of the
  machine arithmetic is not modelled), INTTYPE values as integers, and the device arrays as
  lists. Every property below depends on the shape of the loops and on the order of the
  assignments only.
\<close>

subsection \<open>Thread-local variables and one inner sub-step (lines 57-60, 73-84)\<close>

record locals =
  loc_V :: real
  loc_Vprev1 :: real
  loc_Vprev2 :: real
  loc_R :: real
  loc_spike :: int

text \<open>The value of \<open>V\<close> after \<open>V += dt * dV\<close> (lines 73-78).\<close>

definition next_V :: "real \<Rightarrow> real \<Rightarrow> locals \<Rightarrow> real" where
  "next_V dt I s =
     (let dV = 1 / 0.8 * (I - 1.0 * (17.81 + 0.4771 * loc_V s + 0.003263 * loc_V s * loc_V s)
                               * (loc_V s - 55) - 26 * loc_R s * (loc_V s + 92))
      in loc_V s + dt * dV)"

text \<open>The value of \<open>R\<close> after \<open>R += dt * dR\<close> (lines 73-79).\<close>

definition next_R :: "real \<Rightarrow> locals \<Rightarrow> real" where
  "next_R dt s =
     (let R_infty = 0.0135 * loc_V s + 1.03;
          dR = R_infty / 1.9 - loc_R s / 1.9
      in loc_R s + dt * dR)"

text \<open>
  The test of line 81, on the freshly advanced \<open>V\<close> and the two remembered voltages:
  \<open>(Vprev2 <= Vprev1) && (Vprev1 >= V) && (Vprev1 > 20.)\<close>.
\<close>

definition local_max :: "real \<Rightarrow> real \<Rightarrow> locals \<Rightarrow> bool" where
  "local_max dt I s \<longleftrightarrow>
     loc_Vprev2 s \<le> loc_Vprev1 s \<and> loc_Vprev1 s \<ge> next_V dt I s \<and> loc_Vprev1 s > 20"

text \<open>One pass through the body of the \<open>j\<close> loop (lines 73-84).\<close>

definition substep :: "real \<Rightarrow> real \<Rightarrow> locals \<Rightarrow> locals" where
  "substep dt I s =
     \<lparr>loc_V = next_V dt I s,
      loc_Vprev1 = next_V dt I s,
      loc_Vprev2 = loc_Vprev1 s,
      loc_R = next_R dt s,
      loc_spike = loc_spike s + (if local_max dt I s then 1 else 0)\<rparr>"

text \<open>\<open>for (int j = 0; j < nsteps; ++j)\<close>: the body runs \<open>n\<close> times.\<close>

fun inner_loop :: "nat \<Rightarrow> real \<Rightarrow> real \<Rightarrow> locals \<Rightarrow> locals" where
  "inner_loop 0 dt I s = s"
| "inner_loop (Suc n) dt I s = inner_loop n dt I (substep dt I s)"

subsection \<open>Device memory and the body of the grid-stride loop (lines 63-93)\<close>

record gmem =
  g_I :: "real list"
  g_R :: "real list"
  g_internalV :: "real list"
  g_internalVprev1 :: "real list"
  g_internalVprev2 :: "real list"
  g_spike_state :: "int list"
  g_V :: "real list"

datatype buffer =
  G_I | G_R | G_internalV | G_internalVprev1 | G_internalVprev2 | G_spike_state | G_V

text \<open>
  A store to global memory: the array, the index and the value. \<open>StoreF\<close> writes a
  FLOATTYPE array, \<open>StoreI\<close> the INTTYPE array \<open>g_spike_state\<close>.
\<close>

datatype store = StoreF buffer nat real | StoreI buffer nat int

fun store_target :: "store \<Rightarrow> buffer \<times> nat" where
  "store_target (StoreF b i v) = (b, i)"
| "store_target (StoreI b i v) = (b, i)"

fun apply_store :: "store \<Rightarrow> gmem \<Rightarrow> gmem" where
  "apply_store (StoreF G_I i v) m = m\<lparr>g_I := (g_I m)[i := v]\<rparr>"
| "apply_store (StoreF G_R i v) m = m\<lparr>g_R := (g_R m)[i := v]\<rparr>"
| "apply_store (StoreF G_internalV i v) m = m\<lparr>g_internalV := (g_internalV m)[i := v]\<rparr>"
| "apply_store (StoreF G_internalVprev1 i v) m =
     m\<lparr>g_internalVprev1 := (g_internalVprev1 m)[i := v]\<rparr>"
| "apply_store (StoreF G_internalVprev2 i v) m =
     m\<lparr>g_internalVprev2 := (g_internalVprev2 m)[i := v]\<rparr>"
| "apply_store (StoreF G_V i v) m = m\<lparr>g_V := (g_V m)[i := v]\<rparr>"
| "apply_store (StoreI G_spike_state i v) m = m\<lparr>g_spike_state := (g_spike_state m)[i := v]\<rparr>"
| "apply_store _ m = m"

text \<open>Lines 64-69: \<open>spike = 0\<close> and the loads of the persistent state of component \<open>i\<close>.\<close>

definition load_locals :: "gmem \<Rightarrow> nat \<Rightarrow> locals" where
  "load_locals m i =
     \<lparr>loc_V = g_internalV m ! i,
      loc_Vprev1 = g_internalVprev1 m ! i,
      loc_Vprev2 = g_internalVprev2 m ! i,
      loc_R = g_R m ! i,
      loc_spike = 0\<rparr>"

text \<open>The locals of component \<open>i\<close> when its \<open>j\<close> loop has finished (lines 64-85).\<close>

definition settled :: "real \<Rightarrow> int \<Rightarrow> gmem \<Rightarrow> nat \<Rightarrow> locals" where
  "settled dt nsteps m i = inner_loop (nat nsteps) dt (g_I m ! i) (load_locals m i)"

text \<open>Lines 87-92: the six stores that follow the \<open>j\<close> loop, in program order.\<close>

definition body_stores :: "real \<Rightarrow> int \<Rightarrow> nat \<Rightarrow> gmem \<Rightarrow> store list" where
  "body_stores dt nsteps i m =
     (let s = settled dt nsteps m i
      in [StoreF G_V i (loc_V s),
          StoreF G_R i (loc_R s),
          StoreF G_internalV i (loc_V s),
          StoreF G_internalVprev1 i (loc_Vprev1 s),
          StoreF G_internalVprev2 i (loc_Vprev2 s),
          StoreI G_spike_state i (if loc_spike s > 0 then 1 else 0)])"

text \<open>
  One pass through the body of the \<open>i\<close> loop: the memory after its stores, and the stores
  appended to the log of all stores made so far.
\<close>

definition exec_body :: "real \<Rightarrow> int \<Rightarrow> nat \<Rightarrow> gmem \<times> store list \<Rightarrow> gmem \<times> store list" where
  "exec_body dt nsteps i st =
     (let ws = body_stores dt nsteps i (fst st)
      in (foldl (\<lambda>m w. apply_store w m) (fst st) ws, snd st @ ws))"

subsection \<open>The grid-stride loop and the whole launch (lines 54-55, 63)\<close>

text \<open>
  \<open>for (int i = tid; i < num_comps; i += total_threads)\<close>: the indices one thread visits.
  A launch has at least one thread, so the stride is positive whenever a thread runs; the
  guard \<open>0 < total_threads\<close> only makes the function total. The index is a natural
  number here; the C \<open>int\<close> would wrap only if \<open>num_comps + total_threads\<close> went beyond
  \<open>2^31\<close>.
\<close>

function thread_indices :: "nat \<Rightarrow> nat \<Rightarrow> nat \<Rightarrow> nat list" where
  "thread_indices total_threads num_comps i =
     (if i < num_comps \<and> 0 < total_threads
      then i # thread_indices total_threads num_comps (i + total_threads)
      else [])"
  by pat_completeness auto
termination
  by (relation "measure (\<lambda>(total_threads, num_comps, i). num_comps - i)") auto

declare thread_indices.simps [simp del]

text \<open>The threads \<open>tid = 0, ..., total_threads - 1\<close>, taken one after the other.\<close>

definition kernel_indices :: "nat \<Rightarrow> nat \<Rightarrow> nat list" where
  "kernel_indices total_threads num_comps =
     concat (map (thread_indices total_threads num_comps) [0..<total_threads])"

text \<open>The bodies of the given indices, executed one after the other.\<close>

definition run_bodies :: "real \<Rightarrow> int \<Rightarrow> nat list \<Rightarrow> gmem \<times> store list \<Rightarrow> gmem \<times> store list" where
  "run_bodies dt nsteps js st = foldl (\<lambda>st i. exec_body dt nsteps i st) st js"

text \<open>
  The kernel \<open>update\<close>, launched with \<open>total_threads = gridDim.x * blockDim.x\<close> threads:
  the device memory when the launch has finished, and the log of its stores. The threads
  run concurrently on the device; here they run in the order of \<open>kernel_indices\<close>. Lemma
  \<open>run_bodies_same\<close> below shows that what the launch leaves at an index is fixed by the
  memory at that index before the launch, whatever the order of the indices.
\<close>

definition update :: "nat \<Rightarrow> int \<Rightarrow> real \<Rightarrow> int \<Rightarrow> gmem \<Rightarrow> gmem \<times> store list" where
  "update total_threads num_comps dt nsteps m =
     run_bodies dt nsteps (kernel_indices total_threads (nat num_comps)) (m, [])"

text \<open>Every array handed to the kernel holds at least \<open>n\<close> elements.\<close>

definition bufs_ok :: "nat \<Rightarrow> gmem \<Rightarrow> bool" where
  "bufs_ok n m \<longleftrightarrow>
     n \<le> length (g_I m) \<and> n \<le> length (g_R m) \<and> n \<le> length (g_internalV m) \<and>
     n \<le> length (g_internalVprev1 m) \<and> n \<le> length (g_internalVprev2 m) \<and>
     n \<le> length (g_spike_state m) \<and> n \<le> length (g_V m)"

text \<open>The seven array elements that belong to component \<open>i\<close>.\<close>

definition cell :: "gmem \<Rightarrow> nat \<Rightarrow> real \<times> real \<times> real \<times> real \<times> real \<times> int \<times> real" where
  "cell m i =
     (g_I m ! i, g_R m ! i, g_internalV m ! i, g_internalVprev1 m ! i, g_internalVprev2 m ! i,
      g_spike_state m ! i, g_V m ! i)"

text \<open>
  Memory \<open>m'\<close> holds, at index \<open>i\<close>, what lines 87-92 store when the \<open>j\<close> loop has run
  to its end from the contents of memory \<open>m\<close>.
\<close>

definition holds_settled :: "real \<Rightarrow> int \<Rightarrow> gmem \<Rightarrow> nat \<Rightarrow> gmem \<Rightarrow> bool" where
  "holds_settled dt nsteps m i m' \<longleftrightarrow>
     cell m' i =
       (let s = settled dt nsteps m i
        in (g_I m ! i, loc_R s, loc_V s, loc_Vprev1 s, loc_Vprev2 s,
            if loc_spike s > 0 then 1 else 0, loc_V s))"

text \<open>
  In the words of the specification: some inner sub-step of the round of component \<open>i\<close>
  detected a local voltage maximum above 20.
\<close>

definition spike_detected :: "real \<Rightarrow> int \<Rightarrow> gmem \<Rightarrow> nat \<Rightarrow> bool" where
  "spike_detected dt nsteps m i \<longleftrightarrow>
     (\<exists>j \<in> {..<nat nsteps}. local_max dt (g_I m ! i) (inner_loop j dt (g_I m ! i) (load_locals m i)))"

text \<open>
  A memory of two components, used to run the kernel on concrete data. Component 0 rests
  far below the threshold; component 1 sits on a plateau at 30 (its input balances the
  currents, so every sub-step leaves \<open>V\<close> and \<open>R\<close> where they are).
\<close>

definition mem2 :: gmem where
  "mem2 =
     \<lparr>g_I = [40, 3675.3275],
      g_R = [0.088, 1.435],
      g_internalV = [-70, 30],
      g_internalVprev1 = [-70, 30],
      g_internalVprev2 = [-70, 30],
      g_spike_state = [7, 7],
      g_V = [5, 5]\<rparr>"

section \<open>The component classes (BaseAxonHillockModel.py, Wilson.py)\<close>

subsection \<open>Exceptions, dictionaries and class attributes\<close>

text \<open>
  An exception is a value. \<open>KeyError\<close> carries the missing key; \<open>Raised\<close> stands for an
  exception of any other class, raised by code outside these two files (the CUDA driver,
  \<open>NDComponent\<close>).
\<close>

datatype exn = KeyError string | IndexError | OverflowError | ValueError | Raised string

text \<open>A dict whose values are device arrays of FLOATTYPE, in insertion order.\<close>

type_synonym gdict = "(string \<times> real list) list"

text \<open>\<open>d[k]\<close>.\<close>

definition getitem :: "(string \<times> 'a) list \<Rightarrow> string \<Rightarrow> exn + 'a" where
  "getitem d k = (case map_of d k of None \<Rightarrow> Inl (KeyError k) | Some v \<Rightarrow> Inr v)"

text \<open>\<open>[d[k] for k in ks]\<close>: the first missing key raises.\<close>

fun getitems :: "(string \<times> 'a) list \<Rightarrow> string list \<Rightarrow> exn + 'a list" where
  "getitems d [] = Inr []"
| "getitems d (k # ks) =
     (case getitem d k of
        Inl e \<Rightarrow> Inl e
      | Inr v \<Rightarrow> (case getitems d ks of Inl e \<Rightarrow> Inl e | Inr vs \<Rightarrow> Inr (v # vs)))"

text \<open>\<open>d[k] = v\<close> for a key that \<open>d\<close> holds.\<close>

fun setitem :: "(string \<times> 'a) list \<Rightarrow> string \<Rightarrow> 'a \<Rightarrow> (string \<times> 'a) list" where
  "setitem [] k v = [(k, v)]"
| "setitem ((k', v') # d) k v = (if k' = k then (k, v) # d else (k', v') # setitem d k v)"

text \<open>
  The class attribute \<open>params\<close> is a list of names in the models written for this base
  class and an \<open>OrderedDict\<close> in Wilson (line 16). The constructor reads \<open>self.params[0]\<close>:
  on a list this is the first name (\<open>IndexError\<close> on the empty list), on an
  \<open>OrderedDict\<close> keyed by names it is a lookup of the key \<open>0\<close>, which no name equals.
  Iterating over either yields the names.
\<close>

datatype params_decl = ParamList "string list" | ParamOrderedDict "(string \<times> real) list"

fun params_first :: "params_decl \<Rightarrow> exn + string" where
  "params_first (ParamList []) = Inl IndexError"
| "params_first (ParamList (p # ps)) = Inr p"
| "params_first (ParamOrderedDict d) = Inl (KeyError ''0'')"

fun params_names :: "params_decl \<Rightarrow> string list" where
  "params_names (ParamList ps) = ps"
| "params_names (ParamOrderedDict d) = map fst d"

text \<open>
  The class attributes a model declares. \<open>max_dt\<close> is \<open>None\<close> for a class that declares
  none. \<open>update_func\<close> is the outcome of compiling the kernel source of the class with
  pycuda (line 52): \<open>None\<close> when it compiles, \<open>Some e\<close> when the compiler raises \<open>e\<close>.
\<close>

record model_class =
  accesses :: "string list"
  updates :: "string list"
  params :: params_decl
  internals :: "(string \<times> real) list"
  max_dt :: "real option"
  update_func :: "exn option"

subsection \<open>The constructor (BaseAxonHillockModel.py, lines 20-52)\<close>

text \<open>
  The instance attributes the constructor sets. The flags \<open>debug\<close>, \<open>LPU_id\<close>,
  \<open>dtype\<close> and \<open>compile_options\<close> take no part in what follows and are left out.
\<close>

record component =
  num_comps :: int
  params_dict :: gdict
  access_buffers :: gdict
  dt :: real
  ddt :: real
  steps :: int
  internal_states :: gdict
  inputs :: gdict

text \<open>
  The quotient of two doubles is the double next to the exact quotient, or an infinity
  when that is out of range, or NaN. Which double it is lies with the hardware: the
  division is a parameter \<open>fdiv\<close> of the constructor, and a finite double is the real
  number it stands for.
\<close>

datatype quotient = Quot real | QuotInf | QuotNaN

text \<open>Python's \<open>int(x)\<close> on a finite float: truncation towards zero.\<close>

definition py_int :: "real \<Rightarrow> int" where
  "py_int x = (if 0 \<le> x then \<lfloor>x\<rfloor> else \<lceil>x\<rceil>)"

text \<open>
  \<open>np.int32(n)\<close> on a Python integer, with the wrap-around of the NumPy releases that
  convert through a C integer (later releases raise \<open>OverflowError\<close> out of range; the
  theorems below stay within the range).
\<close>

definition np_int32 :: "int \<Rightarrow> int" where
  "np_int32 n = (n + 2 ^ 31) mod 2 ^ 32 - 2 ^ 31"

text \<open>
  Line 37, \<open>np.int32(max(int(self.dt/self.ddt), 1))\<close>, on the quotient of the two doubles:
  \<open>int\<close> raises \<open>OverflowError\<close> on an infinity and \<open>ValueError\<close> on NaN.
\<close>

definition steps_of_quotient :: "quotient \<Rightarrow> exn + int" where
  "steps_of_quotient x =
     (case x of
        Quot q \<Rightarrow> Inr (np_int32 (max (py_int q) 1))
      | QuotInf \<Rightarrow> Inl OverflowError
      | QuotNaN \<Rightarrow> Inl ValueError)"

text \<open>
  The constructor, for a model class \<open>cls\<close>. Line 27 reads the first declared parameter,
  lines 35-37 compute the sub-step count from the constant \<open>ddt\<close>, lines 39-41 fill the
  internal states with their declared initial values, lines 43-45 allocate one input buffer
  per accessed variable (allocated by \<open>garray.empty\<close>, whose contents are not initialised:
  zeros here; \<open>run_step\<close> overwrites them before the kernel reads them), line 49 reads every
  declared parameter, line 52 compiles the kernel. The argument \<open>dt'\<close> is the finite double
  \<open>np.double(dt)\<close>.
\<close>

definition init ::
  "model_class \<Rightarrow> (real \<Rightarrow> real \<Rightarrow> quotient) \<Rightarrow> gdict \<Rightarrow> gdict \<Rightarrow> real \<Rightarrow> exn + component" where
  "init cls fdiv params_dict' access_buffers' dt' =
     (case params_first (params cls) of
        Inl e \<Rightarrow> Inl e
      | Inr p0 \<Rightarrow>
     (case getitem params_dict' p0 of
        Inl e \<Rightarrow> Inl e
      | Inr a0 \<Rightarrow>
     (let num_comps' = length a0;
          ddt' = 0.000001
      in
     (case steps_of_quotient (fdiv dt' ddt') of
        Inl e \<Rightarrow> Inl e
      | Inr steps' \<Rightarrow>
     (let internal_states' = map (\<lambda>(c, v). (c, replicate num_comps' v)) (internals cls)
      in
     (case getitems access_buffers' (accesses cls) of
        Inl e \<Rightarrow> Inl e
      | Inr _ \<Rightarrow>
     (let inputs' = map (\<lambda>k. (k, replicate num_comps' 0)) (accesses cls)
      in
     (case getitems params_dict' (params_names (params cls)) of
        Inl e \<Rightarrow> Inl e
      | Inr _ \<Rightarrow>
     (case update_func cls of
        Some e \<Rightarrow> Inl e
      | None \<Rightarrow>
          Inr \<lparr>num_comps = int num_comps', params_dict = params_dict',
               access_buffers = access_buffers', dt = dt', ddt = ddt', steps = steps',
               internal_states = internal_states', inputs = inputs'\<rparr>)))))))))"

text \<open>
  The sub-step count as the specification words it, from the maximum stable step a model
  declares.
\<close>

definition spec_steps :: "real \<Rightarrow> real \<Rightarrow> int" where
  "spec_steps dt' modelMaxStableStep = max 1 \<lfloor>dt' / modelMaxStableStep\<rfloor>"

text \<open>The class attributes of Wilson (Wilson.py, lines 14-23).\<close>

definition Wilson_max_dt :: real where
  "Wilson_max_dt = 0.00001"

definition Wilson_accesses :: "string list" where
  "Wilson_accesses = [''I'']"

definition Wilson_params :: params_decl where
  "Wilson_params = ParamOrderedDict []"

text \<open>
  Wilson declares \<open>states\<close> and no \<open>internals\<close>, so it is not a \<open>model_class\<close>; of its
  attributes only \<open>params\<close> is read before the constructor raises at line 27 (lemma
  \<open>init_Wilson_params\<close> below).

  A model in the manner of those written for this base class: parameters as a list of
  names, one internal state, and a declared maximum stable step of \<open>1e-5\<close>.
\<close>

definition LeakyModel :: model_class where
  "LeakyModel =
     \<lparr>accesses = [''I''], updates = [''spike_state'', ''V''],
      params = ParamList [''threshold'', ''reset_potential''],
      internals = [(''internalV'', 0)], max_dt = Some 0.00001, update_func = None\<rparr>"

text \<open>The same model with a declared maximum stable step of \<open>1e-7\<close>.\<close>

definition StiffModel :: model_class where
  "StiffModel = LeakyModel\<lparr>max_dt := Some 0.0000001\<rparr>"

subsection \<open>\<open>pre_run\<close> (BaseAxonHillockModel.py, lines 54-61)\<close>

text \<open>
  The pointers the LPU hands to \<open>pre_run\<close> and \<open>run_step\<close>, one per name in \<open>updates\<close>:
  each array starts at the first element that belongs to this component and goes on into
  the elements of the components that follow it in the LPU's buffer.
\<close>

record update_pointers =
  p_spike_state :: "int list"
  p_V :: "real list"

text \<open>
  \<open>cuda.memcpy_dtod(dest, src, src.nbytes)\<close>: the elements of \<open>src\<close> replace the first
  elements of \<open>dest\<close>. A source longer than the destination runs past its end, which CUDA
  leaves undefined; the theorems assume that it fits.
\<close>

definition memcpy_dtod :: "'a list \<Rightarrow> 'a list \<Rightarrow> 'a list" where
  "memcpy_dtod dest src = src @ drop (length src) dest"

definition pre_run ::
  "'a component_scheme \<Rightarrow> update_pointers \<Rightarrow> exn + 'a component_scheme \<times> update_pointers" where
  "pre_run self up =
     (case map_of (params_dict self) ''initV'' of
        None \<Rightarrow> Inr (self, up)
      | Some initV \<Rightarrow>
          (let up' = up\<lparr>p_V := memcpy_dtod (p_V up) initV\<rparr>
           in case getitem (internal_states self) ''internalV'' of
                Inl e \<Rightarrow> Inl e
              | Inr internalV \<Rightarrow>
                  Inr (self\<lparr>internal_states :=
                         setitem (internal_states self) ''internalV'' (memcpy_dtod internalV initV)\<rparr>,
                       up')))"

subsection \<open>\<open>run_step\<close> (BaseAxonHillockModel.py, lines 64-74; Wilson.py, lines 97-107)\<close>

text \<open>
  Modelled from the spec: \<open>NDComponent.sum_in_variable\<close> is not among the source files.
  The specification fixes its policy: "multiple incoming connections to one input port are
  summed". \<open>incoming k\<close> lists, for each component, the values that arrive this round on
  the connections into its port \<open>k\<close>; the reduction overwrites the input buffer with their
  sums.
\<close>

definition sum_in_variable :: "(string \<Rightarrow> real list list) \<Rightarrow> string \<Rightarrow> real list \<Rightarrow> exn + real list" where
  "sum_in_variable incoming k buf = Inr (map sum_list (incoming k))"

text \<open>
  \<open>for k in self.inputs: self.sum_in_variable(k, self.inputs[k], st=st)\<close>, for any
  implementation \<open>siv\<close> of the reduction: each call either raises or leaves the new
  contents of the buffer.
\<close>

fun reduce_inputs :: "(string \<Rightarrow> real list \<Rightarrow> exn + real list) \<Rightarrow> gdict \<Rightarrow> exn + gdict" where
  "reduce_inputs siv [] = Inr []"
| "reduce_inputs siv ((k, buf) # rest) =
     (case siv k buf of
        Inl e \<Rightarrow> Inl e
      | Inr buf' \<Rightarrow>
          (case reduce_inputs siv rest of
             Inl e \<Rightarrow> Inl e
           | Inr rest' \<Rightarrow> Inr ((k, buf') # rest')))"

text \<open>
  The arguments of a kernel launch: the three scalars, the FLOATTYPE arrays in the order
  of the argument list, and the arrays behind the two update pointers.
\<close>

record launch =
  l_num_comps :: int
  l_dt :: real
  l_nsteps :: int
  l_arrays :: "real list list"
  l_updates :: update_pointers

text \<open>The scalar arguments \<open>BaseAxonHillockModel.run_step\<close> passes (line 70).\<close>

definition Base_scalars :: "'a component_scheme \<Rightarrow> int \<times> real \<times> int" where
  "Base_scalars self = (num_comps self, ddt self, steps self)"

text \<open>
  \<open>BaseAxonHillockModel.run_step\<close>. The kernel is the one the subclass compiled; it and
  the driver are the parameter \<open>prepared_async_call\<close>, which raises or returns the arrays
  as the kernel leaves them. The arrays are written back under their names.
\<close>

definition Base_run_step ::
  "model_class \<Rightarrow> (string \<Rightarrow> real list \<Rightarrow> exn + real list) \<Rightarrow> (launch \<Rightarrow> exn + launch) \<Rightarrow>
   'a component_scheme \<Rightarrow> update_pointers \<Rightarrow> exn + launch" where
  "Base_run_step cls siv prepared_async_call self up =
     (case reduce_inputs siv (inputs self) of
        Inl e \<Rightarrow> Inl e
      | Inr ins \<Rightarrow>
     (case getitems ins (accesses cls) of
        Inl e \<Rightarrow> Inl e
      | Inr a \<Rightarrow>
     (case getitems (params_dict self) (params_names (params cls)) of
        Inl e \<Rightarrow> Inl e
      | Inr p \<Rightarrow>
     (case getitems (internal_states self) (map fst (internals cls)) of
        Inl e \<Rightarrow> Inl e
      | Inr s \<Rightarrow>
     (case Base_scalars self of
        (n, kernel_dt, nsteps) \<Rightarrow>
          prepared_async_call
            \<lparr>l_num_comps = n, l_dt = kernel_dt, l_nsteps = nsteps,
             l_arrays = a @ p @ s, l_updates = up\<rparr>)))))"

text \<open>
  The instance \<open>Wilson.run_step\<close> works on: it reads \<open>self.states\<close>, a dict of device
  arrays keyed \<open>R\<close>, \<open>V\<close>, \<open>Vprev1\<close>, \<open>Vprev2\<close> in this order, next to the attributes of
  the base class.
\<close>

record wilson = component +
  states :: gdict

text \<open>
  The scalar arguments \<open>Wilson.run_step\<close> passes (line 103):
  \<open>self.num_comps, 1000.*self.dt, self.steps\<close>.
\<close>

definition Wilson_scalars :: "wilson \<Rightarrow> int \<times> real \<times> int" where
  "Wilson_scalars self = (num_comps self, 1000 * dt self, steps self)"

text \<open>
  The seven pointer arguments of lines 104-107 bound to the parameters of the kernel
  (lines 46-52), by position. Wilson declares no parameters, so the list is the input
  \<open>I\<close>, the four states and the two update pointers; a launch with another number of
  arguments is refused by pycuda.
\<close>

definition Wilson_bind :: "real list list \<Rightarrow> update_pointers \<Rightarrow> exn + gmem" where
  "Wilson_bind arrays up =
     (case arrays of
        [a_I, a_R, a_V, a_Vprev1, a_Vprev2] \<Rightarrow>
          Inr \<lparr>g_I = a_I, g_R = a_R, g_internalV = a_V, g_internalVprev1 = a_Vprev1,
               g_internalVprev2 = a_Vprev2, g_spike_state = p_spike_state up, g_V = p_V up\<rparr>
      | _ \<Rightarrow> Inl (Raised ''TypeError''))"

text \<open>The memory the launch of \<open>Wilson.run_step\<close> works on, inputs already reduced.\<close>

definition Wilson_memory :: "wilson \<Rightarrow> gdict \<Rightarrow> update_pointers \<Rightarrow> exn + gmem" where
  "Wilson_memory self ins up =
     (case getitems ins Wilson_accesses of
        Inl e \<Rightarrow> Inl e
      | Inr a \<Rightarrow>
     (case getitems (params_dict self) (params_names Wilson_params) of
        Inl e \<Rightarrow> Inl e
      | Inr p \<Rightarrow> Wilson_bind (a @ p @ map snd (states self)) up))"

text \<open>The device arrays after the launch, back under their names.\<close>

definition Wilson_write_back :: "wilson \<Rightarrow> gdict \<Rightarrow> gmem \<Rightarrow> wilson \<times> update_pointers" where
  "Wilson_write_back self ins m =
     (self\<lparr>inputs := setitem ins ''I'' (g_I m),
            states := zip (map fst (states self))
                        [g_R m, g_internalV m, g_internalVprev1 m, g_internalVprev2 m]\<rparr>,
      \<lparr>p_spike_state = g_spike_state m, p_V = g_V m\<rparr>)"

text \<open>
  \<open>Wilson.run_step\<close>. \<open>siv\<close> is the reduction; \<open>fault\<close> is the exception the driver
  raises in place of the launch, if any; \<open>total_threads\<close> is the size of the grid the
  kernel was prepared with. The result is the instance and the update arrays after the
  launch, and the log of the stores the kernel made.
\<close>

definition Wilson_run_step ::
  "(string \<Rightarrow> real list \<Rightarrow> exn + real list) \<Rightarrow> exn option \<Rightarrow> nat \<Rightarrow>
   wilson \<Rightarrow> update_pointers \<Rightarrow> exn + (wilson \<times> update_pointers) \<times> store list" where
  "Wilson_run_step siv fault total_threads self up =
     (case reduce_inputs siv (inputs self) of
        Inl e \<Rightarrow> Inl e
      | Inr ins \<Rightarrow>
     (case Wilson_memory self ins up of
        Inl e \<Rightarrow> Inl e
      | Inr m \<Rightarrow>
     (case fault of
        Some e \<Rightarrow> Inl e
      | None \<Rightarrow>
          (case Wilson_scalars self of
             (n, kernel_dt, nsteps) \<Rightarrow>
               (let r = update total_threads n kernel_dt nsteps m
                in Inr (Wilson_write_back self ins (fst r), snd r))))))"

text \<open>
  The grid of \<open>get_update_func\<close> (lines 87-89 and 113-115): blocks of 128 threads,
  \<open>min(6 * MULTIPROCESSOR_COUNT, (num_comps - 1) / 128 + 1)\<close> of them.
\<close>

definition launch_threads :: "int \<Rightarrow> int \<Rightarrow> nat" where
  "launch_threads multiprocessor_count n =
     128 * nat (min (6 * multiprocessor_count) ((n - 1) div 128 + 1))"

subsection \<open>Concrete inputs\<close>

text \<open>Parameter arrays and access buffers for two instances of \<open>LeakyModel\<close>.\<close>

definition leaky_params :: gdict where
  "leaky_params = [(''threshold'', [-50, -50]), (''reset_potential'', [-65, -65])]"

definition leaky_access :: gdict where
  "leaky_access = [(''I'', [0, 0, 0])]"


text \<open>The same with an initial voltage for each instance.\<close>

definition initV_params :: gdict where
  "initV_params =
     [(''threshold'', [-50, -50]), (''reset_potential'', [-65, -65]), (''initV'', [-61, -62])]"

text \<open>
  An object laid out as \<open>Wilson.run_step\<close> reads it: two components on the arrays of
  \<open>mem2\<close>, \<open>dt = 1e-4\<close> and 100 sub-steps.
\<close>

definition wilson_demo :: wilson where
  "wilson_demo =
     \<lparr>num_comps = 2, params_dict = [], access_buffers = [(''I'', [40, 3675.3275])],
      dt = 0.0001, ddt = 0.000001, steps = 100,
      internal_states = [], inputs = [(''I'', [0, 0])],
      states = [(''R'', [0.088, 1.435]), (''V'', [-70, 30]), (''Vprev1'', [-70, 30]),
                (''Vprev2'', [-70, 30])]\<rparr>"

text \<open>The same instance set to two sub-steps of size \<open>0.1\<close>, as run on \<open>mem2\<close> above.\<close>

definition wilson_short :: wilson where
  "wilson_short = wilson_demo\<lparr>steps := 2\<rparr>"

text \<open>
  Update pointers into a buffer of three elements, the third of which belongs to the
  component that follows.
\<close>

definition demo_pointers :: update_pointers where
  "demo_pointers = \<lparr>p_spike_state = [7, 7, 7], p_V = [5, 5, 5]\<rparr>"

text \<open>One connection into the first component and two into the second.\<close>

definition demo_incoming :: "string \<Rightarrow> real list list" where
  "demo_incoming k = (if k = ''I'' then [[40], [3000, 675.3275]] else [])"

text \<open>
  The division of doubles at the timesteps used below: \<open>1e-4 / 1e-6\<close> is the double
  \<open>100.00000000000001\<close>, one unit in the last place above 100, and \<open>0.000493 / 1e-6\<close> is
  the double \<open>492.99999999999994\<close>, one unit in the last place below 493. A quotient of
  magnitude \<open>2^1024\<close> or more, as \<open>1e303 / 1e-6\<close>, overflows to an infinity. Elsewhere the
  exact quotient stands in.
\<close>

definition demo_fdiv :: "real \<Rightarrow> real \<Rightarrow> quotient" where
  "demo_fdiv x y =
     (if x = 0.0001 \<and> y = 0.000001 then Quot (100 + 1 / 2 ^ 46)
      else if x = 0.000493 \<and> y = 0.000001 then Quot (493 - 1 / 2 ^ 44)
      else if 2 ^ 1024 \<le> \<bar>x / y\<bar> then QuotInf
      else Quot (x / y))"

text \<open>
  Two instances of \<open>LeakyModel\<close> as the constructor leaves them for \<open>dt = 1e-4\<close>: one
  built from \<open>leaky_params\<close> (lemma \<open>init_LeakyModel\<close> below), one from \<open>initV_params\<close>.
\<close>

definition plain_instance :: component where
  "plain_instance =
     \<lparr>num_comps = 2, params_dict = leaky_params, access_buffers = leaky_access,
      dt = 0.0001, ddt = 0.000001, steps = 100,
      internal_states = [(''internalV'', [0, 0])], inputs = [(''I'', [0, 0])]\<rparr>"

definition seeded_instance :: component where
  "seeded_instance = plain_instance\<lparr>params_dict := initV_params\<rparr>"

text \<open>
  The attributes of \<open>plain_instance\<close> in the record type both \<open>run_step\<close> models take,
  with an empty \<open>states\<close>.
\<close>

definition leaky_object :: wilson where
  "leaky_object =
     \<lparr>num_comps = 2, params_dict = leaky_params, access_buffers = leaky_access,
      dt = 0.0001, ddt = 0.000001, steps = 100,
      internal_states = [(''internalV'', [0, 0])], inputs = [(''I'', [0, 0])],
      states = []\<rparr>"

text \<open>
  The memory the launch of \<open>wilson_short\<close> works on when the inputs are reduced from
  \<open>demo_incoming\<close> and the update pointers are \<open>demo_pointers\<close>.
\<close>

definition short_memory :: gmem where
  "short_memory = mem2\<lparr>g_spike_state := [7, 7, 7], g_V := [5, 5, 5]\<rparr>"

text \<open>Update pointers into another buffer, with other contents.\<close>

definition other_pointers :: update_pointers where
  "other_pointers = \<lparr>p_spike_state = [0, 0], p_V = [-1, -2]\<rparr>"

section \<open>Properties of the update kernel\<close>

subsection \<open>The inner loop\<close>

lemma inner_loop_Suc_end:
  "inner_loop (Suc n) kdt I s = substep kdt I (inner_loop n kdt I s)"
  by (induction n arbitrary: s) simp_all

lemma inner_loop_Vprev1:
  "0 < n \<Longrightarrow> loc_Vprev1 (inner_loop n kdt I s) = loc_V (inner_loop n kdt I s)"
proof (cases n)
  case 0
  assume "0 < n"
  with 0 show ?thesis by simp
next
  case (Suc k)
  show ?thesis unfolding Suc inner_loop_Suc_end by (simp add: substep_def)
qed

lemma inner_loop_spike_mono:
  "loc_spike s \<le> loc_spike (inner_loop n kdt I s)"
proof (induction n)
  case 0
  show ?case by simp
next
  case (Suc n)
  have "loc_spike (inner_loop n kdt I s) \<le> loc_spike (inner_loop (Suc n) kdt I s)"
    unfolding inner_loop_Suc_end by (simp add: substep_def)
  with Suc show ?case by linarith
qed

lemma inner_loop_spike_bound:
  "loc_spike (inner_loop n kdt I s) \<le> loc_spike s + int n"
proof (induction n)
  case 0
  show ?case by simp
next
  case (Suc n)
  have "loc_spike (inner_loop (Suc n) kdt I s) \<le> loc_spike (inner_loop n kdt I s) + 1"
    unfolding inner_loop_Suc_end by (simp add: substep_def)
  with Suc show ?case by simp
qed

lemma inner_loop_spike_iff:
  "loc_spike s < loc_spike (inner_loop n kdt I s) \<longleftrightarrow>
     (\<exists>j<n. local_max kdt I (inner_loop j kdt I s))"
proof (induction n)
  case 0
  show ?case by simp
next
  case (Suc n)
  have step: "loc_spike (inner_loop (Suc n) kdt I s) =
      loc_spike (inner_loop n kdt I s) + (if local_max kdt I (inner_loop n kdt I s) then 1 else 0)"
    unfolding inner_loop_Suc_end by (simp add: substep_def)
  have mono: "loc_spike s \<le> loc_spike (inner_loop n kdt I s)"
    by (rule inner_loop_spike_mono)
  show ?case
  proof (cases "local_max kdt I (inner_loop n kdt I s)")
    case True
    with step mono have "loc_spike s < loc_spike (inner_loop (Suc n) kdt I s)" by simp
    moreover from True have "\<exists>j<Suc n. local_max kdt I (inner_loop j kdt I s)" by blast
    ultimately show ?thesis by simp
  next
    case False
    with step have "loc_spike (inner_loop (Suc n) kdt I s) = loc_spike (inner_loop n kdt I s)"
      by simp
    moreover from False have "(\<exists>j<Suc n. local_max kdt I (inner_loop j kdt I s)) \<longleftrightarrow>
        (\<exists>j<n. local_max kdt I (inner_loop j kdt I s))"
      by (auto simp: less_Suc_eq)
    ultimately show ?thesis using Suc by simp
  qed
qed

subsection \<open>The indices a launch visits\<close>

lemma thread_indices_mem:
  "0 < T \<Longrightarrow> k \<in> set (thread_indices T n i) \<longleftrightarrow> k < n \<and> i \<le> k \<and> k mod T = i mod T"
proof (induction T n i rule: thread_indices.induct)
  case (1 T n i)
  show ?case
  proof (cases "i < n")
    case False
    then show ?thesis by (auto simp: thread_indices.simps [of T n i])
  next
    case True
    have far: "i + T \<le> k" if "i \<le> k" "k \<noteq> i" "k mod T = i mod T"
    proof -
      from that have "T dvd k - i" by (simp add: mod_eq_dvd_iff_nat)
      moreover from that have "0 < k - i" by simp
      ultimately have "T \<le> k - i" by (rule dvd_imp_le)
      with that show ?thesis by simp
    qed
    from True 1 have "k \<in> set (thread_indices T n i) \<longleftrightarrow>
        k = i \<or> (k < n \<and> i + T \<le> k \<and> k mod T = (i + T) mod T)"
      by (simp add: thread_indices.simps [of T n i])
    also have "\<dots> \<longleftrightarrow> k < n \<and> i \<le> k \<and> k mod T = i mod T"
      using True far by auto
    finally show ?thesis .
  qed
qed

lemma thread_indices_distinct: "0 < T \<Longrightarrow> distinct (thread_indices T n i)"
proof (induction T n i rule: thread_indices.induct)
  case (1 T n i)
  show ?case
  proof (cases "i < n")
    case False
    then show ?thesis by (simp add: thread_indices.simps [of T n i])
  next
    case True
    with 1 have "distinct (thread_indices T n (i + T))" by simp
    moreover from 1 have "i \<notin> set (thread_indices T n (i + T))"
      by (simp add: thread_indices_mem)
    ultimately show ?thesis using True 1 by (simp add: thread_indices.simps [of T n i])
  qed
qed

lemma threads_upto:
  assumes "0 < T"
  shows "t \<le> T \<Longrightarrow>
     distinct (concat (map (thread_indices T n) [0..<t])) \<and>
     set (concat (map (thread_indices T n) [0..<t])) = {k. k < n \<and> k mod T < t}"
proof (induction t)
  case 0
  show ?case by simp
next
  case (Suc t)
  then have t: "t < T" and IH: "distinct (concat (map (thread_indices T n) [0..<t]))"
    "set (concat (map (thread_indices T n) [0..<t])) = {k. k < n \<and> k mod T < t}"
    by simp_all
  have one: "set (thread_indices T n t) = {k. k < n \<and> k mod T = t}"
  proof -
    have "k \<in> set (thread_indices T n t) \<longleftrightarrow> k < n \<and> k mod T = t" for k
    proof -
      have "t \<le> k" if "k mod T = t"
        using that mod_less_eq_dividend [of k T] by simp
      with assms t show ?thesis by (auto simp: thread_indices_mem)
    qed
    then show ?thesis by blast
  qed
  have "distinct (concat (map (thread_indices T n) [0..<Suc t]))"
    using IH one assms by (auto simp: thread_indices_distinct)
  moreover have "set (concat (map (thread_indices T n) [0..<Suc t])) = {k. k < n \<and> k mod T < Suc t}"
    using IH(2) one by (auto simp: less_Suc_eq)
  ultimately show ?case by simp
qed

lemma kernel_indices_distinct: "0 < T \<Longrightarrow> distinct (kernel_indices T n)"
  using threads_upto [of T T n] by (simp add: kernel_indices_def)

lemma kernel_indices_set: "0 < T \<Longrightarrow> set (kernel_indices T n) = {..<n}"
  using threads_upto [of T T n] by (auto simp: kernel_indices_def)

subsection \<open>What a launch leaves in memory and in the log\<close>

lemma run_bodies_simps [simp]:
  "run_bodies kdt nsteps [] st = st"
  "run_bodies kdt nsteps (j # js) st = run_bodies kdt nsteps js (exec_body kdt nsteps j st)"
  "run_bodies kdt nsteps (js @ ks) st = run_bodies kdt nsteps ks (run_bodies kdt nsteps js st)"
  by (simp_all add: run_bodies_def)

lemma exec_body_fst:
  "fst (exec_body kdt nsteps i st) =
     (let m = fst st; s = settled kdt nsteps m i
      in m\<lparr>g_V := (g_V m)[i := loc_V s],
            g_R := (g_R m)[i := loc_R s],
            g_internalV := (g_internalV m)[i := loc_V s],
            g_internalVprev1 := (g_internalVprev1 m)[i := loc_Vprev1 s],
            g_internalVprev2 := (g_internalVprev2 m)[i := loc_Vprev2 s],
            g_spike_state := (g_spike_state m)[i := (if loc_spike s > 0 then 1 else 0)]\<rparr>)"
  by (simp add: exec_body_def body_stores_def Let_def)

lemma exec_body_snd:
  "snd (exec_body kdt nsteps i st) = snd st @ body_stores kdt nsteps i (fst st)"
  by (simp add: exec_body_def Let_def)

lemma exec_body_g_I: "g_I (fst (exec_body kdt nsteps i st)) = g_I (fst st)"
  by (simp add: exec_body_fst Let_def)

lemma exec_body_bufs_ok: "bufs_ok n (fst (exec_body kdt nsteps i st)) = bufs_ok n (fst st)"
  by (simp add: exec_body_fst Let_def bufs_ok_def)

lemma exec_body_other:
  "j \<noteq> i \<Longrightarrow> cell (fst (exec_body kdt nsteps j st)) i = cell (fst st) i"
  by (simp add: exec_body_fst Let_def cell_def)

lemma exec_body_same:
  "bufs_ok (Suc i) (fst st) \<Longrightarrow> holds_settled kdt nsteps (fst st) i (fst (exec_body kdt nsteps i st))"
  by (simp add: exec_body_fst Let_def cell_def holds_settled_def bufs_ok_def)

lemma settled_cell: "cell m i = cell m' i \<Longrightarrow> settled kdt nsteps m i = settled kdt nsteps m' i"
  by (simp add: cell_def settled_def load_locals_def)

lemma holds_settled_cell:
  "cell m i = cell m2 i \<Longrightarrow> cell m' i = cell m2' i \<Longrightarrow>
     holds_settled kdt nsteps m i m' = holds_settled kdt nsteps m2 i m2'"
  using settled_cell [of m i m2 kdt nsteps] by (simp add: holds_settled_def) (simp add: cell_def)

lemma run_bodies_g_I: "g_I (fst (run_bodies kdt nsteps js st)) = g_I (fst st)"
  by (induction js arbitrary: st) (simp_all add: exec_body_g_I)

lemma run_bodies_bufs_ok: "bufs_ok n (fst (run_bodies kdt nsteps js st)) = bufs_ok n (fst st)"
  by (induction js arbitrary: st) (simp_all add: exec_body_bufs_ok)

lemma run_bodies_other:
  "i \<notin> set js \<Longrightarrow> cell (fst (run_bodies kdt nsteps js st)) i = cell (fst st) i"
  by (induction js arbitrary: st) (simp_all add: exec_body_other)

lemma run_bodies_same:
  assumes "distinct js" and "i \<in> set js" and "bufs_ok (Suc i) (fst st)"
  shows "holds_settled kdt nsteps (fst st) i (fst (run_bodies kdt nsteps js st))"
proof -
  from assms(2) obtain pre post where js: "js = pre @ i # post"
    by (auto dest: split_list)
  with assms(1) have pre: "i \<notin> set pre" and post: "i \<notin> set post" by simp_all
  define st1 where "st1 = run_bodies kdt nsteps pre st"
  define st2 where "st2 = exec_body kdt nsteps i st1"
  have c1: "cell (fst st1) i = cell (fst st) i"
    unfolding st1_def using pre by (rule run_bodies_other)
  have "bufs_ok (Suc i) (fst st1)"
    unfolding st1_def using assms(3) by (simp add: run_bodies_bufs_ok)
  then have "holds_settled kdt nsteps (fst st1) i (fst st2)"
    unfolding st2_def by (rule exec_body_same)
  moreover have "cell (fst (run_bodies kdt nsteps post st2)) i = cell (fst st2) i"
    using post by (rule run_bodies_other)
  ultimately have "holds_settled kdt nsteps (fst st) i (fst (run_bodies kdt nsteps post st2))"
    using c1 holds_settled_cell [of "fst st1" i "fst st" "fst st2" "fst (run_bodies kdt nsteps post st2)"]
    by simp
  then show ?thesis by (simp add: js st1_def st2_def)
qed

lemma run_bodies_targets:
  "map store_target (snd (run_bodies kdt nsteps js st)) =
     map store_target (snd st) @
     concat (map (\<lambda>i. [(G_V, i), (G_R, i), (G_internalV, i), (G_internalVprev1, i),
                        (G_internalVprev2, i), (G_spike_state, i)]) js)"
  by (induction js arbitrary: st) (simp_all add: exec_body_snd body_stores_def Let_def)

lemma run_bodies_log_grows: "set (snd st) \<subseteq> set (snd (run_bodies kdt nsteps js st))"
proof (induction js arbitrary: st)
  case Nil
  show ?case by simp
next
  case (Cons j js)
  have "set (snd st) \<subseteq> set (snd (exec_body kdt nsteps j st))" by (simp add: exec_body_snd)
  with Cons [of "exec_body kdt nsteps j st"] show ?case by auto
qed

lemma run_bodies_log_settled:
  assumes "distinct js" and "i \<in> set js"
  shows "set (body_stores kdt nsteps i (fst st)) \<subseteq> set (snd (run_bodies kdt nsteps js st))"
proof -
  from assms(2) obtain pre post where js: "js = pre @ i # post"
    by (auto dest: split_list)
  with assms(1) have pre: "i \<notin> set pre" by simp
  define st1 where "st1 = run_bodies kdt nsteps pre st"
  have "cell (fst st1) i = cell (fst st) i"
    unfolding st1_def using pre by (rule run_bodies_other)
  then have "body_stores kdt nsteps i (fst st1) = body_stores kdt nsteps i (fst st)"
    using settled_cell [of "fst st1" i "fst st" kdt nsteps] by (simp add: body_stores_def)
  moreover have "set (body_stores kdt nsteps i (fst st1)) \<subseteq> set (snd (exec_body kdt nsteps i st1))"
    by (simp add: exec_body_snd)
  moreover have "set (snd (exec_body kdt nsteps i st1)) \<subseteq>
      set (snd (run_bodies kdt nsteps post (exec_body kdt nsteps i st1)))"
    by (rule run_bodies_log_grows)
  ultimately show ?thesis by (simp add: js st1_def)
qed

lemma count_targets:
  "distinct js \<Longrightarrow>
     count_list (concat (map (\<lambda>i. [(G_V, i), (G_R, i), (G_internalV, i), (G_internalVprev1, i),
                        (G_internalVprev2, i), (G_spike_state, i)]) js)) (b, i) =
     (if i \<in> set js \<and> b \<noteq> G_I then 1 else 0)"
  by (induction js) (auto, (cases b; simp)+)

lemma update_holds_settled:
  assumes "0 < total_threads" and "bufs_ok (nat nc) m" and "i < nat nc"
  shows "holds_settled kdt nsteps m i (fst (update total_threads nc kdt nsteps m))"
proof -
  define st0 :: "gmem \<times> store list" where "st0 = (m, [])"
  from assms(1) have "distinct (kernel_indices total_threads (nat nc))"
    by (rule kernel_indices_distinct)
  moreover from assms(1,3) have "i \<in> set (kernel_indices total_threads (nat nc))"
    by (simp add: kernel_indices_set)
  moreover from assms(2,3) have "bufs_ok (Suc i) (fst st0)" by (simp add: bufs_ok_def st0_def)
  ultimately have "holds_settled kdt nsteps (fst st0) i
      (fst (run_bodies kdt nsteps (kernel_indices total_threads (nat nc)) st0))"
    by (rule run_bodies_same)
  then show ?thesis by (simp add: update_def st0_def)
qed

text \<open>
  The counter \<open>spike\<close> is an INTTYPE; it starts at 0 and grows by at most one per
  sub-step, so it stays within \<open>nsteps\<close>, itself a C \<open>int\<close>, and never wraps.
\<close>

lemma spike_counter_in_range:
  "0 \<le> loc_spike (settled kdt nsteps m i) \<and> loc_spike (settled kdt nsteps m i) \<le> max 0 nsteps"
  using inner_loop_spike_mono [of "load_locals m i" "nat nsteps" kdt "g_I m ! i"]
    inner_loop_spike_bound [of "nat nsteps" kdt "g_I m ! i" "load_locals m i"]
  by (simp add: settled_def load_locals_def max_def)

subsection \<open>The whole launch\<close>

lemma body_stores_cell:
  "cell m i = cell m' i \<Longrightarrow> body_stores kdt nsteps i m = body_stores kdt nsteps i m'"
  using settled_cell [of m i m' kdt nsteps] by (simp add: body_stores_def)

lemma run_bodies_log:
  "distinct js \<Longrightarrow>
     snd (run_bodies kdt nsteps js st) =
       snd st @ concat (map (\<lambda>i. body_stores kdt nsteps i (fst st)) js)"
proof (induction js arbitrary: st)
  case Nil
  show ?case by simp
next
  case (Cons j js)
  have "map (\<lambda>i. body_stores kdt nsteps i (fst (exec_body kdt nsteps j st))) js =
        map (\<lambda>i. body_stores kdt nsteps i (fst st)) js"
  proof (rule map_cong [OF refl])
    fix i assume "i \<in> set js"
    with Cons.prems have "j \<noteq> i" by auto
    then have "cell (fst (exec_body kdt nsteps j st)) i = cell (fst st) i"
      by (rule exec_body_other)
    then show "body_stores kdt nsteps i (fst (exec_body kdt nsteps j st)) =
        body_stores kdt nsteps i (fst st)"
      by (rule body_stores_cell)
  qed
  with Cons.IH [of "exec_body kdt nsteps j st"] Cons.prems show ?case
    by (simp add: exec_body_snd)
qed

lemma update_log:
  "0 < T \<Longrightarrow>
     snd (update T nc kdt nsteps m) =
       concat (map (\<lambda>i. body_stores kdt nsteps i m) (kernel_indices T (nat nc)))"
  by (simp add: update_def run_bodies_log kernel_indices_distinct)

lemma exec_body_lengths:
  "length (g_R (fst (exec_body kdt nsteps i st))) = length (g_R (fst st)) \<and>
   length (g_internalV (fst (exec_body kdt nsteps i st))) = length (g_internalV (fst st)) \<and>
   length (g_internalVprev1 (fst (exec_body kdt nsteps i st))) = length (g_internalVprev1 (fst st)) \<and>
   length (g_internalVprev2 (fst (exec_body kdt nsteps i st))) = length (g_internalVprev2 (fst st)) \<and>
   length (g_spike_state (fst (exec_body kdt nsteps i st))) = length (g_spike_state (fst st)) \<and>
   length (g_V (fst (exec_body kdt nsteps i st))) = length (g_V (fst st))"
  by (simp add: exec_body_fst Let_def)

lemma run_bodies_lengths:
  "length (g_R (fst (run_bodies kdt nsteps js st))) = length (g_R (fst st)) \<and>
   length (g_internalV (fst (run_bodies kdt nsteps js st))) = length (g_internalV (fst st)) \<and>
   length (g_internalVprev1 (fst (run_bodies kdt nsteps js st))) = length (g_internalVprev1 (fst st)) \<and>
   length (g_internalVprev2 (fst (run_bodies kdt nsteps js st))) = length (g_internalVprev2 (fst st)) \<and>
   length (g_spike_state (fst (run_bodies kdt nsteps js st))) = length (g_spike_state (fst st)) \<and>
   length (g_V (fst (run_bodies kdt nsteps js st))) = length (g_V (fst st))"
  by (induction js arbitrary: st) (simp_all add: exec_body_lengths)

lemma update_cell:
  assumes "0 < T" and "bufs_ok (nat nc) m"
  shows "cell (fst (update T nc kdt nsteps m)) i =
     (if i < nat nc
      then (let s = settled kdt nsteps m i
            in (g_I m ! i, loc_R s, loc_V s, loc_Vprev1 s, loc_Vprev2 s,
                if loc_spike s > 0 then 1 else 0, loc_V s))
      else cell m i)"
proof (cases "i < nat nc")
  case True
  with update_holds_settled [OF assms True, of kdt nsteps] show ?thesis
    by (simp add: holds_settled_def)
next
  case False
  with assms(1) have "i \<notin> set (kernel_indices T (nat nc))"
    by (simp add: kernel_indices_set)
  then have "cell (fst (run_bodies kdt nsteps (kernel_indices T (nat nc)) (m, []))) i =
      cell (fst (m, [] :: store list)) i"
    by (rule run_bodies_other)
  with False show ?thesis by (simp add: update_def)
qed

lemma update_lengths:
  "length (g_R (fst (update T nc kdt nsteps m))) = length (g_R m) \<and>
   length (g_internalV (fst (update T nc kdt nsteps m))) = length (g_internalV m) \<and>
   length (g_internalVprev1 (fst (update T nc kdt nsteps m))) = length (g_internalVprev1 m) \<and>
   length (g_internalVprev2 (fst (update T nc kdt nsteps m))) = length (g_internalVprev2 m) \<and>
   length (g_spike_state (fst (update T nc kdt nsteps m))) = length (g_spike_state m) \<and>
   length (g_V (fst (update T nc kdt nsteps m))) = length (g_V m)"
  using run_bodies_lengths [of kdt nsteps "kernel_indices T (nat nc)" "(m, [])"]
  by (simp add: update_def)

lemma update_g_I: "g_I (fst (update T nc kdt nsteps m)) = g_I m"
  by (simp add: update_def run_bodies_g_I)

lemma update_nth:
  assumes "0 < T" and "bufs_ok (nat nc) m"
  shows "g_R (fst (update T nc kdt nsteps m)) ! i =
           (if i < nat nc then loc_R (settled kdt nsteps m i) else g_R m ! i)"
    and "g_internalV (fst (update T nc kdt nsteps m)) ! i =
           (if i < nat nc then loc_V (settled kdt nsteps m i) else g_internalV m ! i)"
    and "g_internalVprev1 (fst (update T nc kdt nsteps m)) ! i =
           (if i < nat nc then loc_Vprev1 (settled kdt nsteps m i) else g_internalVprev1 m ! i)"
    and "g_internalVprev2 (fst (update T nc kdt nsteps m)) ! i =
           (if i < nat nc then loc_Vprev2 (settled kdt nsteps m i) else g_internalVprev2 m ! i)"
    and "g_spike_state (fst (update T nc kdt nsteps m)) ! i =
           (if i < nat nc then (if loc_spike (settled kdt nsteps m i) > 0 then 1 else 0)
            else g_spike_state m ! i)"
    and "g_V (fst (update T nc kdt nsteps m)) ! i =
           (if i < nat nc then loc_V (settled kdt nsteps m i) else g_V m ! i)"
  using update_cell [OF assms, of kdt nsteps i]
  by (simp_all add: cell_def Let_def split: if_splits)

lemma update_arrays:
  assumes "0 < T" and "bufs_ok (nat nc) m"
  shows "g_R (fst (update T nc kdt nsteps m)) =
           map (\<lambda>i. if i < nat nc then loc_R (settled kdt nsteps m i) else g_R m ! i)
             [0..<length (g_R m)]"
    and "g_internalV (fst (update T nc kdt nsteps m)) =
           map (\<lambda>i. if i < nat nc then loc_V (settled kdt nsteps m i) else g_internalV m ! i)
             [0..<length (g_internalV m)]"
    and "g_internalVprev1 (fst (update T nc kdt nsteps m)) =
           map (\<lambda>i. if i < nat nc then loc_Vprev1 (settled kdt nsteps m i)
                     else g_internalVprev1 m ! i)
             [0..<length (g_internalVprev1 m)]"
    and "g_internalVprev2 (fst (update T nc kdt nsteps m)) =
           map (\<lambda>i. if i < nat nc then loc_Vprev2 (settled kdt nsteps m i)
                     else g_internalVprev2 m ! i)
             [0..<length (g_internalVprev2 m)]"
    and "g_spike_state (fst (update T nc kdt nsteps m)) =
           map (\<lambda>i. if i < nat nc then (if loc_spike (settled kdt nsteps m i) > 0 then 1 else 0)
                     else g_spike_state m ! i)
             [0..<length (g_spike_state m)]"
    and "g_V (fst (update T nc kdt nsteps m)) =
           map (\<lambda>i. if i < nat nc then loc_V (settled kdt nsteps m i) else g_V m ! i)
             [0..<length (g_V m)]"
  by (rule nth_equalityI, simp add: update_lengths, simp add: update_lengths update_nth [OF assms])+

lemma update_count:
  assumes "0 < T"
  shows "count_list (map store_target (snd (update T nc kdt nsteps m))) (b, i) =
     (if i < nat nc \<and> b \<noteq> G_I then 1 else 0)"
proof -
  have "map store_target (snd (update T nc kdt nsteps m)) =
      concat (map (\<lambda>i. [(G_V, i), (G_R, i), (G_internalV, i), (G_internalVprev1, i),
                        (G_internalVprev2, i), (G_spike_state, i)]) (kernel_indices T (nat nc)))"
    using run_bodies_targets [of kdt nsteps "kernel_indices T (nat nc)" "(m, [])"]
    by (simp add: update_def)
  with assms show ?thesis
    by (simp add: count_targets kernel_indices_distinct kernel_indices_set)
qed

lemma update_log_mem:
  assumes "0 < T" and "w \<in> set (snd (update T nc kdt nsteps m))"
  shows "\<exists>j<nat nc. w \<in> set (body_stores kdt nsteps j m)"
  using assms by (auto simp: update_log kernel_indices_set)

lemma body_stores_V:
  "w \<in> set (body_stores kdt nsteps j m) \<Longrightarrow> store_target w = (G_V, i) \<Longrightarrow>
     w = StoreF G_V i (loc_V (settled kdt nsteps m i))"
  by (auto simp: body_stores_def Let_def)

lemma body_stores_spike_state:
  "w \<in> set (body_stores kdt nsteps j m) \<Longrightarrow> store_target w = (G_spike_state, i) \<Longrightarrow>
     w = StoreI G_spike_state i (if loc_spike (settled kdt nsteps m i) > 0 then 1 else 0)"
  by (auto simp: body_stores_def Let_def)

lemma body_stores_own:
  "w \<in> set (body_stores kdt nsteps j m) \<Longrightarrow>
     fst (store_target w) \<noteq> G_I \<and> snd (store_target w) = j"
  by (auto simp: body_stores_def Let_def)

lemma settled_reads:
  "g_I m = g_I m' \<Longrightarrow> g_R m = g_R m' \<Longrightarrow> g_internalV m = g_internalV m' \<Longrightarrow>
   g_internalVprev1 m = g_internalVprev1 m' \<Longrightarrow> g_internalVprev2 m = g_internalVprev2 m' \<Longrightarrow>
     settled kdt nsteps m i = settled kdt nsteps m' i"
  by (simp add: settled_def load_locals_def)

section \<open>Properties of the component classes\<close>

subsection \<open>The constructor\<close>

lemma py_int_pos: "0 \<le> x \<Longrightarrow> py_int x = \<lfloor>x\<rfloor>" by (simp add: py_int_def)

lemma np_int32_id: "- (2 ^ 31) \<le> n \<Longrightarrow> n < 2 ^ 31 \<Longrightarrow> np_int32 n = n"
  by (simp add: np_int32_def)

lemma init_Inr:
  "init cls fdiv pd ab t = Inr c \<Longrightarrow>
     \<exists>p0 a0 q. params_first (params cls) = Inr p0 \<and> getitem pd p0 = Inr a0 \<and>
       fdiv t 0.000001 = Quot q \<and>
       c = \<lparr>num_comps = int (length a0), params_dict = pd, access_buffers = ab, dt = t,
            ddt = 0.000001, steps = np_int32 (max (py_int q) 1),
            internal_states = map (\<lambda>(c, v). (c, replicate (length a0) v)) (internals cls),
            inputs = map (\<lambda>k. (k, replicate (length a0) 0)) (accesses cls)\<rparr>"
  by (auto simp: init_def steps_of_quotient_def Let_def
      split: sum.splits option.splits quotient.splits)





lemma init_LeakyModel:
  "init LeakyModel demo_fdiv leaky_params leaky_access 0.0001 = Inr plain_instance"
  by (simp add: init_def steps_of_quotient_def demo_fdiv_def LeakyModel_def leaky_params_def
      leaky_access_def plain_instance_def getitem_def np_int32_def py_int_def Let_def
      eval_nat_numeral)

lemma init_StiffModel:
  "init StiffModel demo_fdiv leaky_params leaky_access 0.0001 = Inr plain_instance"
  by (simp add: init_def steps_of_quotient_def demo_fdiv_def StiffModel_def LeakyModel_def
      leaky_params_def leaky_access_def plain_instance_def getitem_def np_int32_def py_int_def
      Let_def eval_nat_numeral)

lemma init_Wilson_params:
  "params cls = Wilson_params \<Longrightarrow> init cls fdiv pd ab t = Inl (KeyError ''0'')"
  by (simp add: init_def Wilson_params_def)

subsection \<open>\<open>pre_run\<close>\<close>

lemma map_of_setitem:
  "map_of (setitem d k v) k' = (if k' = k then Some v else map_of d k')"
  by (induction d) auto

subsection \<open>\<open>run_step\<close>\<close>

lemma reduce_inputs_raises:
  "d = pre @ (k, buf) # post \<Longrightarrow> list_all (\<lambda>(k', b'). \<not> isl (siv k' b')) pre \<Longrightarrow>
     siv k buf = Inl e \<Longrightarrow> reduce_inputs siv d = Inl e"
proof (induction pre arbitrary: d)
  case Nil
  then show ?case by simp
next
  case (Cons x pre)
  obtain k' b' where x: "x = (k', b')" by (cases x)
  from Cons.prems x obtain v where v: "siv k' b' = Inr v"
    by (cases "siv k' b'") auto
  from Cons.prems have "reduce_inputs siv (pre @ (k, buf) # post) = Inl e"
    by (intro Cons.IH) simp_all
  with Cons.prems(1) x v show ?case by simp
qed

lemma reduce_inputs_sum:
  "reduce_inputs (sum_in_variable incoming) d =
     Inr (map (\<lambda>(k, buf). (k, map sum_list (incoming k))) d)"
  by (induction d) (auto simp: sum_in_variable_def)

lemma map_of_summed:
  "map_of (map (\<lambda>(k, buf). (k, f k)) d) k = (if k \<in> fst ` set d then Some (f k) else None)"
  by (induction d) auto

lemma getitems_summed:
  "getitems (map (\<lambda>(k, buf). (k, f k)) d) ks = Inr vs \<Longrightarrow>
     vs = map f ks \<and> set ks \<subseteq> fst ` set d"
  by (induction ks arbitrary: vs)
    (auto simp: getitem_def map_of_summed split: sum.splits option.splits if_splits)

lemma Wilson_run_step_Inr:
  "Wilson_run_step siv fault T self up = Inr r \<longleftrightarrow>
     (\<exists>ins m. reduce_inputs siv (inputs self) = Inr ins \<and> Wilson_memory self ins up = Inr m \<and>
        fault = None \<and>
        r = (Wilson_write_back self ins
               (fst (update T (num_comps self) (1000 * dt self) (steps self) m)),
             snd (update T (num_comps self) (1000 * dt self) (steps self) m)))"
  by (auto simp: Wilson_run_step_def Wilson_scalars_def Let_def split: sum.splits option.splits)

lemma Wilson_memory_Inr:
  "Wilson_memory self ins up = Inr m \<longleftrightarrow>
     (\<exists>a_I a_R a_V a_Vprev1 a_Vprev2. map_of ins ''I'' = Some a_I \<and>
        map snd (states self) = [a_R, a_V, a_Vprev1, a_Vprev2] \<and>
        m = \<lparr>g_I = a_I, g_R = a_R, g_internalV = a_V, g_internalVprev1 = a_Vprev1,
             g_internalVprev2 = a_Vprev2, g_spike_state = p_spike_state up, g_V = p_V up\<rparr>)"
  by (auto simp: Wilson_memory_def Wilson_bind_def Wilson_accesses_def Wilson_params_def
      getitem_def split: sum.splits option.splits list.splits)

text \<open>
  The grid \<open>get_update_func\<close> prepares has threads whenever the device has a
  multiprocessor and the instance a component; for up to 128 components it has 128.
\<close>

lemma launch_threads_pos: "0 < multiprocessor_count \<Longrightarrow> 0 < n \<Longrightarrow> 0 < launch_threads multiprocessor_count n"
  by (simp add: launch_threads_def)

lemma launch_threads_small:
  "0 < multiprocessor_count \<Longrightarrow> 0 < n \<Longrightarrow> n \<le> 128 \<Longrightarrow>
     launch_threads multiprocessor_count n = 128"
  by (simp add: launch_threads_def min_def)

subsection \<open>The concrete inputs\<close>

lemma reduce_demo:
  "reduce_inputs (sum_in_variable demo_incoming) (inputs wilson_short) =
     Inr [(''I'', [40, 3675.3275])]"
  by (simp add: sum_in_variable_def wilson_short_def wilson_demo_def demo_incoming_def)

lemma memory_demo:
  "Wilson_memory wilson_short [(''I'', [40, 3675.3275])] demo_pointers = Inr short_memory"
  by (simp add: Wilson_memory_def Wilson_bind_def Wilson_accesses_def Wilson_params_def
      getitem_def wilson_short_def wilson_demo_def demo_pointers_def short_memory_def mem2_def)

lemma memory_other:
  "Wilson_memory (wilson_short\<lparr>ddt := 1, params_dict := leaky_params\<rparr>)
     [(''I'', [40, 3675.3275])] other_pointers =
   Inr (mem2\<lparr>g_spike_state := [0, 0], g_V := [-1, -2]\<rparr>)"
  by (simp add: Wilson_memory_def Wilson_bind_def Wilson_accesses_def Wilson_params_def
      getitem_def wilson_short_def wilson_demo_def other_pointers_def mem2_def leaky_params_def)

lemma bufs_demo:
  "bufs_ok (nat (num_comps wilson_short)) short_memory"
  "bufs_ok (nat (num_comps wilson_short)) (mem2\<lparr>g_spike_state := [0, 0], g_V := [-1, -2]\<rparr>)"
  by (simp_all add: bufs_ok_def wilson_short_def wilson_demo_def short_memory_def mem2_def)

lemma settled_demo:
  "loc_V (settled (1000 * dt wilson_short) (steps wilson_short) short_memory 1) = 30"
  "loc_spike (settled (1000 * dt wilson_short) (steps wilson_short) short_memory 1) = 2"
  by (simp_all add: settled_def load_locals_def short_memory_def mem2_def substep_def next_V_def
      next_R_def local_max_def wilson_short_def wilson_demo_def eval_nat_numeral)

lemma Wilson_short_runs:
  "Wilson_run_step (sum_in_variable demo_incoming) None 128 wilson_short demo_pointers =
     Inr (Wilson_write_back wilson_short [(''I'', [40, 3675.3275])]
            (fst (update 128 (num_comps wilson_short) (1000 * dt wilson_short)
                    (steps wilson_short) short_memory)),
          snd (update 128 (num_comps wilson_short) (1000 * dt wilson_short)
                 (steps wilson_short) short_memory))"
  using reduce_demo memory_demo by (simp only: Wilson_run_step_Inr) blast

lemma Base_leaky_runs:
  "Base_run_step LeakyModel (sum_in_variable demo_incoming) Inr leaky_object demo_pointers =
     Inr \<lparr>l_num_comps = 2, l_dt = 0.000001, l_nsteps = 100,
          l_arrays = [[40, 3675.3275], [-50, -50], [-65, -65], [0, 0]],
          l_updates = demo_pointers\<rparr>"
  by (simp add: Base_run_step_def Base_scalars_def LeakyModel_def sum_in_variable_def
      getitem_def leaky_object_def leaky_params_def demo_incoming_def)

lemma Base_stiff_runs:
  "Base_run_step StiffModel (sum_in_variable demo_incoming) Inr plain_instance demo_pointers =
     Inr \<lparr>l_num_comps = 2, l_dt = 0.000001, l_nsteps = 100,
          l_arrays = [[40, 3675.3275], [-50, -50], [-65, -65], [0, 0]],
          l_updates = demo_pointers\<rparr>"
  by (simp add: Base_run_step_def Base_scalars_def StiffModel_def LeakyModel_def
      sum_in_variable_def getitem_def plain_instance_def leaky_params_def demo_incoming_def)

section \<open>The claims\<close>

text \<open>
  Claim C1, as amended. The constructor computes the inner sub-step count as
  \<open>max(1, floor(q))\<close>, where \<open>q\<close> is the quotient of the doubles \<open>dt\<close> and \<open>ddt\<close> as the
  machine rounds it and \<open>ddt = 1e-6\<close> is a constant of the base class, for every model class
  and every \<open>dt\<close> with \<open>q < 2^31\<close>; the maximum stable step a model declares (\<open>max_dt\<close>)
  takes no part in it.
\<close>

theorem init_steps:
  assumes "init cls fdiv pd ab t = Inr c" and "fdiv t 0.000001 = Quot q" and "q < 2 ^ 31"
  shows "steps c = max 1 \<lfloor>q\<rfloor> \<and> ddt c = 0.000001 \<and>
         init (cls\<lparr>max_dt := declared\<rparr>) fdiv pd ab t = Inr c"
proof -
  have "max (py_int q) 1 = max 1 \<lfloor>q\<rfloor>"
    by (cases "0 \<le> q") (auto simp: py_int_def max_def, linarith+)
  moreover from assms(3) have "\<lfloor>q\<rfloor> < 2 ^ 31"
    by (simp add: floor_less_iff)
  ultimately have "np_int32 (max (py_int q) 1) = max 1 \<lfloor>q\<rfloor>"
    by (simp add: np_int32_id)
  moreover have "init (cls\<lparr>max_dt := declared\<rparr>) fdiv pd ab t = init cls fdiv pd ab t"
    by (simp add: init_def Let_def cong: sum.case_cong option.case_cong)
  ultimately show ?thesis using init_Inr [OF assms(1)] assms(1,2) by auto
qed

text \<open>
  At \<open>dt = 1e-4\<close> the count is 100, whatever \<open>max_dt\<close> is. At \<open>dt = 0.000493\<close> the rounded
  quotient lies just below 493 and the count is 492, one less than the floor of the exact
  quotient.
\<close>

theorem init_steps_witness:
  "init LeakyModel demo_fdiv leaky_params leaky_access 0.0001 = Inr plain_instance \<and>
   steps plain_instance = 100 \<and>
   init (LeakyModel\<lparr>max_dt := Some 1\<rparr>) demo_fdiv leaky_params leaky_access 0.0001 =
     Inr plain_instance \<and>
   init LeakyModel demo_fdiv leaky_params leaky_access 0.000493 =
     Inr (plain_instance\<lparr>dt := 0.000493, steps := 492\<rparr>) \<and>
   \<lfloor>(0.000493 :: real) / 0.000001\<rfloor> = 493"
proof -
  have a: "demo_fdiv 0.0001 0.000001 = Quot (100 + 1 / 2 ^ 46)"
    by (simp add: demo_fdiv_def)
  have b: "(100 + 1 / 2 ^ 46 :: real) < 2 ^ 31" by simp
  have c: "init LeakyModel demo_fdiv leaky_params leaky_access 0.000493 =
     Inr (plain_instance\<lparr>dt := 0.000493, steps := 492\<rparr>)"
    by (simp add: init_def steps_of_quotient_def demo_fdiv_def LeakyModel_def leaky_params_def
        leaky_access_def plain_instance_def getitem_def np_int32_def py_int_def Let_def
        eval_nat_numeral)
  from init_steps [OF init_LeakyModel a b, of "Some 1"] init_LeakyModel c show ?thesis
    by (simp add: plain_instance_def)
qed

text \<open>
  The claim as first stated divides by the declared maximum stable step. For a model that
  declares \<open>1e-5\<close>, as Wilson does, and \<open>dt = 1e-4\<close> that gives 10 sub-steps; the
  constructor computes 100.
\<close>

theorem init_steps_counterexample:
  "init LeakyModel demo_fdiv leaky_params leaky_access 0.0001 = Inr plain_instance \<and>
   steps plain_instance = 100 \<and>
   max_dt LeakyModel = Some 0.00001 \<and> spec_steps 0.0001 0.00001 = 10 \<and>
   spec_steps 0.0001 Wilson_max_dt = 10"
  using init_LeakyModel
  by (simp add: plain_instance_def LeakyModel_def spec_steps_def Wilson_max_dt_def)

text \<open>
  Claim C2, as amended. \<open>BaseAxonHillockModel.run_step\<close>, on a component its constructor
  built, hands the kernel the constant sub-step size \<open>ddt = 1e-6\<close>, not the round timestep,
  and the sub-step count the constructor computed. The Wilson kernel, launched with a
  sub-step size and a count \<open>nsteps\<close>, advances the persistent state of every component
  through exactly \<open>nsteps\<close> sub-steps, and every sub-step moves \<open>V\<close> and \<open>R\<close> by that one
  size times a rate that does not depend on it. No step compares the size with the maximum
  stable step the model declares.
\<close>

theorem run_step_substeps:
  "(init cls fdiv pd ab t = Inr self \<and>
    Base_run_step cls siv prepared_async_call self up = Inr l \<longrightarrow>
      (\<exists>arrays. prepared_async_call
         \<lparr>l_num_comps = num_comps self, l_dt = 0.000001, l_nsteps = steps self,
          l_arrays = arrays, l_updates = up\<rparr> = Inr l)) \<and>
   (0 < T \<and> bufs_ok (nat nc) m \<and> i < nat nc \<longrightarrow>
      g_internalV (fst (update T nc kdt nsteps m)) ! i =
        loc_V (inner_loop (nat nsteps) kdt (g_I m ! i) (load_locals m i)) \<and>
      g_R (fst (update T nc kdt nsteps m)) ! i =
        loc_R (inner_loop (nat nsteps) kdt (g_I m ! i) (load_locals m i))) \<and>
   loc_V (substep kdt I s) = loc_V s + kdt * (loc_V (substep 1 I s) - loc_V s) \<and>
   loc_R (substep kdt I s) = loc_R s + kdt * (loc_R (substep 1 I s) - loc_R s)"
proof (intro conjI impI)
  assume a: "init cls fdiv pd ab t = Inr self \<and>
    Base_run_step cls siv prepared_async_call self up = Inr l"
  then have d: "ddt self = 0.000001" by (auto dest: init_Inr)
  from a show "\<exists>arrays. prepared_async_call
         \<lparr>l_num_comps = num_comps self, l_dt = 0.000001, l_nsteps = steps self,
          l_arrays = arrays, l_updates = up\<rparr> = Inr l"
    by (auto simp: Base_run_step_def Base_scalars_def d split: sum.splits)
next
  assume b: "0 < T \<and> bufs_ok (nat nc) m \<and> i < nat nc"
  then have T: "0 < T" and ok: "bufs_ok (nat nc) m" and i: "i < nat nc" by simp_all
  from i show "g_internalV (fst (update T nc kdt nsteps m)) ! i =
        loc_V (inner_loop (nat nsteps) kdt (g_I m ! i) (load_locals m i))"
    by (simp add: update_nth [OF T ok] settled_def)
  from i show "g_R (fst (update T nc kdt nsteps m)) ! i =
        loc_R (inner_loop (nat nsteps) kdt (g_I m ! i) (load_locals m i))"
    by (simp add: update_nth [OF T ok] settled_def)
next
  show "loc_V (substep kdt I s) = loc_V s + kdt * (loc_V (substep 1 I s) - loc_V s)"
    by (simp add: substep_def next_V_def)
  show "loc_R (substep kdt I s) = loc_R s + kdt * (loc_R (substep 1 I s) - loc_R s)"
    by (simp add: substep_def next_R_def)
qed

theorem run_step_substeps_witness:
  "(\<exists>arrays. Inr \<lparr>l_num_comps = num_comps plain_instance, l_dt = 0.000001,
                 l_nsteps = steps plain_instance, l_arrays = arrays,
                 l_updates = demo_pointers\<rparr> =
             Base_run_step StiffModel (sum_in_variable demo_incoming) Inr plain_instance
               demo_pointers) \<and>
   g_internalV (fst (update 128 2 0.1 2 mem2)) ! 1 =
     loc_V (inner_loop (nat 2) 0.1 (g_I mem2 ! 1) (load_locals mem2 1)) \<and>
   g_R (fst (update 128 2 0.1 2 mem2)) ! 1 =
     loc_R (inner_loop (nat 2) 0.1 (g_I mem2 ! 1) (load_locals mem2 1))"
proof
  have "init StiffModel demo_fdiv leaky_params leaky_access 0.0001 = Inr plain_instance \<and>
    Base_run_step StiffModel (sum_in_variable demo_incoming) Inr plain_instance demo_pointers =
      Inr \<lparr>l_num_comps = 2, l_dt = 0.000001, l_nsteps = 100,
          l_arrays = [[40, 3675.3275], [-50, -50], [-65, -65], [0, 0]],
          l_updates = demo_pointers\<rparr>"
    using init_StiffModel Base_stiff_runs by (rule conjI)
  from run_step_substeps [THEN conjunct1, THEN mp, OF this]
  show "\<exists>arrays. Inr \<lparr>l_num_comps = num_comps plain_instance, l_dt = 0.000001,
                 l_nsteps = steps plain_instance, l_arrays = arrays,
                 l_updates = demo_pointers\<rparr> =
             Base_run_step StiffModel (sum_in_variable demo_incoming) Inr plain_instance
               demo_pointers"
    by (simp only: Base_stiff_runs)
next
  have "0 < (128 :: nat) \<and> bufs_ok (nat 2) mem2 \<and> 1 < nat 2"
    by (simp add: bufs_ok_def mem2_def)
  from run_step_substeps [THEN conjunct2, THEN conjunct1, THEN mp, OF this]
  show "g_internalV (fst (update 128 2 0.1 2 mem2)) ! 1 =
     loc_V (inner_loop (nat 2) 0.1 (g_I mem2 ! 1) (load_locals mem2 1)) \<and>
   g_R (fst (update 128 2 0.1 2 mem2)) ! 1 =
     loc_R (inner_loop (nat 2) 0.1 (g_I mem2 ! 1) (load_locals mem2 1))" .
qed

text \<open>
  The claim as first stated has the size of a sub-step never exceed the maximum stable step
  the model declares. For a model that declares \<open>1e-7\<close>, built for \<open>dt = 1e-4\<close>, the kernel is
  handed the sub-step size \<open>1e-6\<close>.
\<close>

theorem run_step_substeps_counterexample:
  "init StiffModel demo_fdiv leaky_params leaky_access 0.0001 = Inr plain_instance \<and>
   max_dt StiffModel = Some 0.0000001 \<and>
   map_sum id l_dt
     (Base_run_step StiffModel (sum_in_variable demo_incoming) Inr plain_instance
        demo_pointers) = Inr 0.000001 \<and>
   (0.0000001 :: real) < 0.000001"
proof -
  have "max_dt StiffModel = Some 0.0000001" by (simp add: StiffModel_def)
  with init_StiffModel show ?thesis by (simp only: Base_stiff_runs) simp
qed

text \<open>
  Claim C3. A call of \<open>Wilson.run_step\<close> launches the kernel once. For every component
  \<open>i\<close> the log of the launch holds exactly one store to \<open>g_V[i]\<close> and exactly one to
  \<open>g_spike_state[i]\<close>; each carries the value reached when all inner sub-steps of the
  round are done, and that value is what the update arrays hold afterwards. No store goes
  to the input array or to an index beyond the component's own, the update arrays keep
  their elements from \<open>num_comps\<close> on, and of the instance only \<open>inputs\<close> and \<open>states\<close>
  change.
\<close>

theorem Wilson_run_step_publishes_once:
  assumes "reduce_inputs siv (inputs self) = Inr ins"
    and "Wilson_memory self ins up = Inr m"
    and "bufs_ok (nat (num_comps self)) m"
    and "0 < T"
    and "i < nat (num_comps self)"
  shows "\<exists>self' up' log.
     Wilson_run_step siv None T self up = Inr ((self', up'), log) \<and>
     count_list (map store_target log) (G_V, i) = 1 \<and>
     count_list (map store_target log) (G_spike_state, i) = 1 \<and>
     (\<forall>w \<in> set log. store_target w = (G_V, i) \<longrightarrow>
        w = StoreF G_V i (loc_V (settled (1000 * dt self) (steps self) m i))) \<and>
     (\<forall>w \<in> set log. store_target w = (G_spike_state, i) \<longrightarrow>
        w = StoreI G_spike_state i
              (if loc_spike (settled (1000 * dt self) (steps self) m i) > 0 then 1 else 0)) \<and>
     p_V up' ! i = loc_V (settled (1000 * dt self) (steps self) m i) \<and>
     p_spike_state up' ! i =
       (if loc_spike (settled (1000 * dt self) (steps self) m i) > 0 then 1 else 0) \<and>
     (\<forall>w \<in> set log. fst (store_target w) \<noteq> G_I \<and> snd (store_target w) < nat (num_comps self)) \<and>
     (\<forall>j \<ge> nat (num_comps self).
        p_V up' ! j = p_V up ! j \<and> p_spike_state up' ! j = p_spike_state up ! j) \<and>
     length (p_V up') = length (p_V up) \<and>
     length (p_spike_state up') = length (p_spike_state up) \<and>
     self'\<lparr>inputs := inputs self, states := states self\<rparr> = self"
proof -
  define U where "U = update T (num_comps self) (1000 * dt self) (steps self) m"
  define self' where "self' = fst (Wilson_write_back self ins (fst U))"
  define up' where "up' = snd (Wilson_write_back self ins (fst U))"
  have up': "p_V up' = g_V (fst U)" "p_spike_state up' = g_spike_state (fst U)"
    by (simp_all add: up'_def Wilson_write_back_def)
  from assms(2) have m: "g_V m = p_V up" "g_spike_state m = p_spike_state up"
    by (auto simp: Wilson_memory_Inr)
  have run: "Wilson_run_step siv None T self up = Inr ((self', up'), snd U)"
    using assms(1,2) by (simp add: Wilson_run_step_Inr U_def self'_def up'_def)
  have c1: "count_list (map store_target (snd U)) (G_V, i) = 1"
    and c2: "count_list (map store_target (snd U)) (G_spike_state, i) = 1"
    using assms(4,5) by (simp_all add: U_def update_count)
  have v: "\<forall>w \<in> set (snd U). store_target w = (G_V, i) \<longrightarrow>
        w = StoreF G_V i (loc_V (settled (1000 * dt self) (steps self) m i))"
    using assms(4) unfolding U_def by (blast dest: update_log_mem body_stores_V)
  have s: "\<forall>w \<in> set (snd U). store_target w = (G_spike_state, i) \<longrightarrow>
        w = StoreI G_spike_state i
              (if loc_spike (settled (1000 * dt self) (steps self) m i) > 0 then 1 else 0)"
    using assms(4) unfolding U_def by (blast dest: update_log_mem body_stores_spike_state)
  have own: "\<forall>w \<in> set (snd U).
      fst (store_target w) \<noteq> G_I \<and> snd (store_target w) < nat (num_comps self)"
    using assms(4) unfolding U_def by (blast dest: update_log_mem body_stores_own)
  have pv: "p_V up' ! i = loc_V (settled (1000 * dt self) (steps self) m i)"
    and ps: "p_spike_state up' ! i =
       (if loc_spike (settled (1000 * dt self) (steps self) m i) > 0 then 1 else 0)"
    using assms(5) by (simp_all add: up' U_def update_nth [OF assms(4,3)])
  have rest: "\<forall>j \<ge> nat (num_comps self).
        p_V up' ! j = p_V up ! j \<and> p_spike_state up' ! j = p_spike_state up ! j"
    by (simp add: up' U_def update_nth [OF assms(4,3)] m)
  have len: "length (p_V up') = length (p_V up)"
    "length (p_spike_state up') = length (p_spike_state up)"
    by (simp_all add: up' U_def update_lengths m)
  have frame: "self'\<lparr>inputs := inputs self, states := states self\<rparr> = self"
    by (simp add: self'_def Wilson_write_back_def)
  from run c1 c2 v s pv ps own rest len frame show ?thesis by blast
qed

theorem Wilson_run_step_publishes_once_witness:
  "\<exists>self' up' log.
     Wilson_run_step (sum_in_variable demo_incoming) None 128 wilson_short demo_pointers =
       Inr ((self', up'), log) \<and>
     count_list (map store_target log) (G_V, 1) = 1 \<and>
     count_list (map store_target log) (G_spike_state, 1) = 1 \<and>
     p_V up' ! 1 = 30 \<and> p_spike_state up' ! 1 = 1 \<and>
     p_V up' ! 2 = 5 \<and> p_spike_state up' ! 2 = 7"
proof -
  have T: "0 < (128 :: nat)" by simp
  have i: "1 < nat (num_comps wilson_short)" by (simp add: wilson_short_def wilson_demo_def)
  from Wilson_run_step_publishes_once [OF reduce_demo memory_demo bufs_demo(1) T i]
  obtain self' up' log where
    run: "Wilson_run_step (sum_in_variable demo_incoming) None 128 wilson_short demo_pointers =
       Inr ((self', up'), log)"
    and c: "count_list (map store_target log) (G_V, 1) = 1"
      "count_list (map store_target log) (G_spike_state, 1) = 1"
    and v: "p_V up' ! 1 =
      loc_V (settled (1000 * dt wilson_short) (steps wilson_short) short_memory 1)"
      "p_spike_state up' ! 1 =
       (if loc_spike (settled (1000 * dt wilson_short) (steps wilson_short) short_memory 1) > 0
        then 1 else 0)"
    and rest: "\<forall>j \<ge> nat (num_comps wilson_short).
        p_V up' ! j = p_V demo_pointers ! j \<and>
        p_spike_state up' ! j = p_spike_state demo_pointers ! j"
    by blast
  from rest have "p_V up' ! 2 = 5 \<and> p_spike_state up' ! 2 = 7"
    by (simp add: wilson_short_def wilson_demo_def demo_pointers_def)
  with run c v [unfolded settled_demo] show ?thesis by simp
qed

text \<open>
  Claim C4. With the reduction the specification prescribes, the memory the kernel of
  \<open>Wilson.run_step\<close> is launched on holds, as \<open>g_I\<close>, the sums of the incoming values, and
  the launch of \<open>BaseAxonHillockModel.run_step\<close> receives, for every accessed variable, the
  array of these sums: the reduction is complete when the kernel is launched.
\<close>

theorem run_step_reduces_first:
  "(Wilson_run_step (sum_in_variable incoming) fault T self up = Inr r \<longrightarrow>
      (\<exists>ins m. reduce_inputs (sum_in_variable incoming) (inputs self) = Inr ins \<and>
         map_of ins ''I'' = Some (map sum_list (incoming ''I'')) \<and>
         Wilson_memory self ins up = Inr m \<and>
         g_I m = map sum_list (incoming ''I'') \<and>
         r = (Wilson_write_back self ins
                (fst (update T (num_comps self) (1000 * dt self) (steps self) m)),
              snd (update T (num_comps self) (1000 * dt self) (steps self) m)))) \<and>
   (Base_run_step cls (sum_in_variable incoming) prepared_async_call self up = Inr l \<longrightarrow>
      (\<exists>p s. prepared_async_call
         \<lparr>l_num_comps = num_comps self, l_dt = ddt self, l_nsteps = steps self,
          l_arrays = map (\<lambda>k. map sum_list (incoming k)) (accesses cls) @ p @ s,
          l_updates = up\<rparr> = Inr l))"
proof (intro conjI impI)
  assume "Wilson_run_step (sum_in_variable incoming) fault T self up = Inr r"
  then obtain ins m where ins: "reduce_inputs (sum_in_variable incoming) (inputs self) = Inr ins"
    and m: "Wilson_memory self ins up = Inr m"
    and r: "r = (Wilson_write_back self ins
                (fst (update T (num_comps self) (1000 * dt self) (steps self) m)),
              snd (update T (num_comps self) (1000 * dt self) (steps self) m))"
    by (auto simp: Wilson_run_step_Inr)
  from ins have ins_eq: "ins = map (\<lambda>(k, buf). (k, map sum_list (incoming k))) (inputs self)"
    by (simp add: reduce_inputs_sum)
  from m obtain a_I where a_I: "map_of ins ''I'' = Some a_I" and g_I: "g_I m = a_I"
    by (auto simp: Wilson_memory_Inr)
  from a_I have "a_I = map sum_list (incoming ''I'')"
    unfolding ins_eq by (simp add: map_of_summed split: if_splits)
  with ins m r a_I g_I
  show "\<exists>ins m. reduce_inputs (sum_in_variable incoming) (inputs self) = Inr ins \<and>
         map_of ins ''I'' = Some (map sum_list (incoming ''I'')) \<and>
         Wilson_memory self ins up = Inr m \<and>
         g_I m = map sum_list (incoming ''I'') \<and>
         r = (Wilson_write_back self ins
                (fst (update T (num_comps self) (1000 * dt self) (steps self) m)),
              snd (update T (num_comps self) (1000 * dt self) (steps self) m))"
    by auto
next
  assume "Base_run_step cls (sum_in_variable incoming) prepared_async_call self up = Inr l"
  then show "\<exists>p s. prepared_async_call
         \<lparr>l_num_comps = num_comps self, l_dt = ddt self, l_nsteps = steps self,
          l_arrays = map (\<lambda>k. map sum_list (incoming k)) (accesses cls) @ p @ s,
          l_updates = up\<rparr> = Inr l"
    by (auto simp: Base_run_step_def Base_scalars_def reduce_inputs_sum
        split: sum.splits dest!: getitems_summed)
qed

theorem run_step_reduces_first_witness:
  "(\<exists>ins m. reduce_inputs (sum_in_variable demo_incoming) (inputs wilson_short) = Inr ins \<and>
      Wilson_memory wilson_short ins demo_pointers = Inr m \<and>
      g_I m = map sum_list [[40], [3000, 675.3275]]) \<and>
   (\<exists>p s. Inr \<lparr>l_num_comps = num_comps leaky_object, l_dt = ddt leaky_object,
               l_nsteps = steps leaky_object,
               l_arrays = map (\<lambda>k. map sum_list (demo_incoming k)) (accesses LeakyModel) @ p @ s,
               l_updates = demo_pointers\<rparr> =
           Base_run_step LeakyModel (sum_in_variable demo_incoming) Inr leaky_object
             demo_pointers)"
proof
  from run_step_reduces_first [THEN conjunct1, THEN mp, OF Wilson_short_runs]
  have "\<exists>ins m. reduce_inputs (sum_in_variable demo_incoming) (inputs wilson_short) = Inr ins \<and>
      Wilson_memory wilson_short ins demo_pointers = Inr m \<and>
      g_I m = map sum_list (demo_incoming ''I'')"
    by blast
  then show "\<exists>ins m. reduce_inputs (sum_in_variable demo_incoming) (inputs wilson_short) = Inr ins \<and>
      Wilson_memory wilson_short ins demo_pointers = Inr m \<and>
      g_I m = map sum_list [[40], [3000, 675.3275]]"
    by (simp add: demo_incoming_def)
next
  from run_step_reduces_first [THEN conjunct2, THEN mp, OF Base_leaky_runs]
  show "\<exists>p s. Inr \<lparr>l_num_comps = num_comps leaky_object, l_dt = ddt leaky_object,
               l_nsteps = steps leaky_object,
               l_arrays = map (\<lambda>k. map sum_list (demo_incoming k)) (accesses LeakyModel) @ p @ s,
               l_updates = demo_pointers\<rparr> =
           Base_run_step LeakyModel (sum_in_variable demo_incoming) Inr leaky_object
             demo_pointers"
    by (simp only: Base_leaky_runs)
qed

text \<open>
  Claim C5. Without an \<open>initV\<close> entry in the parameter dict, \<open>pre_run\<close> changes
  nothing. With one, for a component that holds the internal state \<open>internalV\<close> and whose
  buffers are at least as long as \<open>initV\<close>, it copies \<open>initV\<close> over the first elements of
  the \<open>V\<close> update array and of \<open>internalV\<close> and leaves everything else as it was.
\<close>

theorem pre_run_initV:
  "(map_of (params_dict self) ''initV'' = None \<longrightarrow> pre_run self up = Inr (self, up)) \<and>
   (map_of (params_dict self) ''initV'' = Some initV \<and>
    map_of (internal_states self) ''internalV'' = Some internalV \<and>
    length initV \<le> length (p_V up) \<and> length initV \<le> length internalV \<longrightarrow>
      (\<exists>self' up'. pre_run self up = Inr (self', up') \<and>
         take (length initV) (p_V up') = initV \<and>
         drop (length initV) (p_V up') = drop (length initV) (p_V up) \<and>
         p_spike_state up' = p_spike_state up \<and>
         (\<exists>internalV'. map_of (internal_states self') ''internalV'' = Some internalV' \<and>
            take (length initV) internalV' = initV \<and>
            drop (length initV) internalV' = drop (length initV) internalV) \<and>
         (\<forall>k. k \<noteq> ''internalV'' \<longrightarrow>
            map_of (internal_states self') k = map_of (internal_states self) k) \<and>
         self'\<lparr>internal_states := internal_states self\<rparr> = self))"
  by (auto simp: pre_run_def getitem_def memcpy_dtod_def map_of_setitem Let_def)

theorem pre_run_initV_witness:
  "pre_run plain_instance demo_pointers = Inr (plain_instance, demo_pointers) \<and>
   (\<exists>self' up'. pre_run seeded_instance demo_pointers = Inr (self', up') \<and>
      take 2 (p_V up') = [-61, -62] \<and> drop 2 (p_V up') = [5] \<and>
      p_spike_state up' = [7, 7, 7] \<and>
      map_of (internal_states self') ''internalV'' = Some [-61, -62])"
proof
  have "map_of (params_dict plain_instance) ''initV'' = None"
    by (simp add: plain_instance_def leaky_params_def)
  from pre_run_initV [THEN conjunct1, THEN mp, OF this]
  show "pre_run plain_instance demo_pointers = Inr (plain_instance, demo_pointers)" .
next
  have "map_of (params_dict seeded_instance) ''initV'' = Some [-61, -62] \<and>
    map_of (internal_states seeded_instance) ''internalV'' = Some [0, 0] \<and>
    length [-61, -62 :: real] \<le> length (p_V demo_pointers) \<and>
    length [-61, -62 :: real] \<le> length [0, 0 :: real]"
    by (simp add: seeded_instance_def plain_instance_def initV_params_def demo_pointers_def)
  from pre_run_initV [THEN conjunct2, THEN mp, OF this]
  obtain self' up' internalV' where "pre_run seeded_instance demo_pointers = Inr (self', up')"
    and "take (length [-61, -62 :: real]) (p_V up') = [-61, -62]"
    and "drop (length [-61, -62 :: real]) (p_V up') = drop (length [-61, -62 :: real]) (p_V demo_pointers)"
    and "p_spike_state up' = p_spike_state demo_pointers"
    and "map_of (internal_states self') ''internalV'' = Some internalV'"
    and "take (length [-61, -62 :: real]) internalV' = [-61, -62]"
    and "drop (length [-61, -62 :: real]) internalV' = drop (length [-61, -62 :: real]) [0, 0]"
    by blast
  moreover from this have "internalV' = [-61, -62]"
    by (metis append_take_drop_id drop_all length_Cons list.size(3) order_refl self_append_conv)
  ultimately show "\<exists>self' up'. pre_run seeded_instance demo_pointers = Inr (self', up') \<and>
      take 2 (p_V up') = [-61, -62] \<and> drop 2 (p_V up') = [5] \<and>
      p_spike_state up' = [7, 7, 7] \<and>
      map_of (internal_states self') ''internalV'' = Some [-61, -62]"
    by (simp add: demo_pointers_def numeral_2_eq_2)
qed

text \<open>
  Claim C6. Two calls of \<open>Wilson.run_step\<close> on instances with the same inputs, states,
  \<open>dt\<close>, sub-step count and size leave the same states and input buffers and publish the
  same \<open>V\<close> and \<open>spike_state\<close> for every component, whatever the update arrays held
  before, whatever the other attributes of the instances, and whatever the number of
  threads.
\<close>

theorem Wilson_run_step_deterministic:
  assumes "reduce_inputs siv (inputs self1) = Inr ins"
    and "Wilson_memory self1 ins up1 = Inr m1"
    and "Wilson_memory self2 ins up2 = Inr m2"
    and "bufs_ok (nat (num_comps self1)) m1"
    and "bufs_ok (nat (num_comps self1)) m2"
    and "inputs self2 = inputs self1"
    and "states self2 = states self1"
    and "dt self2 = dt self1"
    and "steps self2 = steps self1"
    and "num_comps self2 = num_comps self1"
    and "0 < T1" and "0 < T2"
  shows "\<exists>self1' up1' log1 self2' up2' log2.
     Wilson_run_step siv None T1 self1 up1 = Inr ((self1', up1'), log1) \<and>
     Wilson_run_step siv None T2 self2 up2 = Inr ((self2', up2'), log2) \<and>
     states self1' = states self2' \<and>
     inputs self1' = inputs self2' \<and>
     take (nat (num_comps self1)) (p_V up1') = take (nat (num_comps self1)) (p_V up2') \<and>
     take (nat (num_comps self1)) (p_spike_state up1') =
       take (nat (num_comps self1)) (p_spike_state up2')"
proof -
  define n where "n = nat (num_comps self1)"
  define U1 where "U1 = update T1 (num_comps self1) (1000 * dt self1) (steps self1) m1"
  define U2 where "U2 = update T2 (num_comps self1) (1000 * dt self1) (steps self1) m2"
  have run1: "Wilson_run_step siv None T1 self1 up1 =
      Inr (Wilson_write_back self1 ins (fst U1), snd U1)"
    using assms(1,2) by (simp add: Wilson_run_step_Inr U1_def)
  have run2: "Wilson_run_step siv None T2 self2 up2 =
      Inr (Wilson_write_back self2 ins (fst U2), snd U2)"
    using assms(1,3,6,8,9,10) by (simp add: Wilson_run_step_Inr U2_def)
  from assms(2,3,7) have reads: "g_I m1 = g_I m2" "g_R m1 = g_R m2"
    "g_internalV m1 = g_internalV m2" "g_internalVprev1 m1 = g_internalVprev1 m2"
    "g_internalVprev2 m1 = g_internalVprev2 m2"
    by (auto simp: Wilson_memory_Inr)
  have same: "settled (1000 * dt self1) (steps self1) m1 i =
      settled (1000 * dt self1) (steps self1) m2 i" for i
    using reads by (rule settled_reads)
  have arr: "g_R (fst U1) = g_R (fst U2)" "g_internalV (fst U1) = g_internalV (fst U2)"
    "g_internalVprev1 (fst U1) = g_internalVprev1 (fst U2)"
    "g_internalVprev2 (fst U1) = g_internalVprev2 (fst U2)"
    unfolding U1_def U2_def
    by (simp_all add: update_arrays [OF assms(11,4)] update_arrays [OF assms(12,5)] same reads)
  have g_I: "g_I (fst U1) = g_I (fst U2)"
    by (simp add: U1_def U2_def update_g_I reads)
  have st: "states (fst (Wilson_write_back self1 ins (fst U1))) =
      states (fst (Wilson_write_back self2 ins (fst U2)))"
    and inp: "inputs (fst (Wilson_write_back self1 ins (fst U1))) =
      inputs (fst (Wilson_write_back self2 ins (fst U2)))"
    using arr g_I assms(7) by (simp_all add: Wilson_write_back_def)
  from assms(4,5) have len: "n \<le> length (g_V m1)" "n \<le> length (g_V m2)"
    "n \<le> length (g_spike_state m1)" "n \<le> length (g_spike_state m2)"
    by (simp_all add: bufs_ok_def n_def)
  have pv: "take n (g_V (fst U1)) = take n (g_V (fst U2))"
    using len unfolding U1_def U2_def
    by (intro nth_equalityI)
      (simp_all add: update_lengths update_nth [OF assms(11,4)] update_nth [OF assms(12,5)]
        same n_def)
  have ps: "take n (g_spike_state (fst U1)) = take n (g_spike_state (fst U2))"
    using len unfolding U1_def U2_def
    by (intro nth_equalityI)
      (simp_all add: update_lengths update_nth [OF assms(11,4)] update_nth [OF assms(12,5)]
        same n_def)
  have out: "take n (p_V (snd (Wilson_write_back self1 ins (fst U1)))) =
      take n (p_V (snd (Wilson_write_back self2 ins (fst U2))))"
    "take n (p_spike_state (snd (Wilson_write_back self1 ins (fst U1)))) =
      take n (p_spike_state (snd (Wilson_write_back self2 ins (fst U2))))"
    using pv ps by (simp_all add: Wilson_write_back_def)
  show ?thesis
    using run1 run2 st inp out unfolding n_def
    by (metis prod.collapse)
qed

theorem Wilson_run_step_deterministic_witness:
  "\<exists>self1' up1' log1 self2' up2' log2.
     Wilson_run_step (sum_in_variable demo_incoming) None 128 wilson_short demo_pointers =
       Inr ((self1', up1'), log1) \<and>
     Wilson_run_step (sum_in_variable demo_incoming) None 256
       (wilson_short\<lparr>ddt := 1, params_dict := leaky_params\<rparr>) other_pointers =
       Inr ((self2', up2'), log2) \<and>
     states self1' = states self2' \<and>
     inputs self1' = inputs self2' \<and>
     take (nat (num_comps wilson_short)) (p_V up1') =
       take (nat (num_comps wilson_short)) (p_V up2') \<and>
     take (nat (num_comps wilson_short)) (p_spike_state up1') =
       take (nat (num_comps wilson_short)) (p_spike_state up2')"
  by (rule Wilson_run_step_deterministic [OF reduce_demo memory_demo memory_other bufs_demo])
    simp_all




text \<open>
  Claim C8. An exception raised by a reduction of an input, or by the launch, is the
  result of \<open>run_step\<close>, in \<open>Wilson.run_step\<close> and in
  \<open>BaseAxonHillockModel.run_step\<close> alike: nothing catches it and nothing is tried again.
\<close>

theorem run_step_propagates:
  "(inputs self = pre @ (k, buf) # post \<and> list_all (\<lambda>(k', b'). \<not> isl (siv k' b')) pre \<and>
    siv k buf = Inl e \<longrightarrow>
      Wilson_run_step siv fault T self up = Inl e \<and>
      Base_run_step cls siv prepared_async_call self up = Inl e) \<and>
   (reduce_inputs siv (inputs self) = Inr ins \<and> Wilson_memory self ins up = Inr m \<and>
    fault = Some e \<longrightarrow>
      Wilson_run_step siv fault T self up = Inl e) \<and>
   (reduce_inputs siv (inputs self) = Inr ins \<and> getitems ins (accesses cls) = Inr a \<and>
    getitems (params_dict self) (params_names (params cls)) = Inr p \<and>
    getitems (internal_states self) (map fst (internals cls)) = Inr s \<and>
    prepared_async_call
      \<lparr>l_num_comps = num_comps self, l_dt = ddt self, l_nsteps = steps self,
       l_arrays = a @ p @ s, l_updates = up\<rparr> = Inl e \<longrightarrow>
      Base_run_step cls siv prepared_async_call self up = Inl e)"
proof (intro conjI impI)
  assume "inputs self = pre @ (k, buf) # post \<and>
    list_all (\<lambda>(k', b'). \<not> isl (siv k' b')) pre \<and> siv k buf = Inl e"
  then have r: "reduce_inputs siv (inputs self) = Inl e"
    by (auto intro: reduce_inputs_raises)
  from r show "Wilson_run_step siv fault T self up = Inl e"
    by (simp add: Wilson_run_step_def)
  from r show "Base_run_step cls siv prepared_async_call self up = Inl e"
    by (simp add: Base_run_step_def)
next
  assume "reduce_inputs siv (inputs self) = Inr ins \<and> Wilson_memory self ins up = Inr m \<and>
    fault = Some e"
  then show "Wilson_run_step siv fault T self up = Inl e"
    by (simp add: Wilson_run_step_def)
next
  assume "reduce_inputs siv (inputs self) = Inr ins \<and> getitems ins (accesses cls) = Inr a \<and>
    getitems (params_dict self) (params_names (params cls)) = Inr p \<and>
    getitems (internal_states self) (map fst (internals cls)) = Inr s \<and>
    prepared_async_call
      \<lparr>l_num_comps = num_comps self, l_dt = ddt self, l_nsteps = steps self,
       l_arrays = a @ p @ s, l_updates = up\<rparr> = Inl e"
  then show "Base_run_step cls siv prepared_async_call self up = Inl e"
    by (simp add: Base_run_step_def Base_scalars_def)
qed

theorem run_step_propagates_witness:
  "Wilson_run_step (\<lambda>k buf. Inl (Raised ''LogicError'')) None 128 wilson_short demo_pointers =
     Inl (Raised ''LogicError'') \<and>
   Base_run_step LeakyModel (\<lambda>k buf. Inl (Raised ''LogicError'')) Inr wilson_short demo_pointers =
     Inl (Raised ''LogicError'') \<and>
   Wilson_run_step (sum_in_variable demo_incoming) (Some (Raised ''LaunchError'')) 128
     wilson_short demo_pointers = Inl (Raised ''LaunchError'') \<and>
   Base_run_step LeakyModel (sum_in_variable demo_incoming) (\<lambda>l. Inl (Raised ''LaunchError''))
     leaky_object demo_pointers = Inl (Raised ''LaunchError'')"
proof -
  have a: "inputs wilson_short = [] @ (''I'', [0, 0]) # [] \<and>
    list_all (\<lambda>(k', b'). \<not> isl ((\<lambda>k buf. Inl (Raised ''LogicError'') :: exn + real list) k' b')) [] \<and>
    (\<lambda>k buf. Inl (Raised ''LogicError'') :: exn + real list) ''I'' [0, 0] = Inl (Raised ''LogicError'')"
    by (simp add: wilson_short_def wilson_demo_def)
  have b: "reduce_inputs (sum_in_variable demo_incoming) (inputs wilson_short) =
      Inr [(''I'', [40, 3675.3275])] \<and>
    Wilson_memory wilson_short [(''I'', [40, 3675.3275])] demo_pointers = Inr short_memory \<and>
    Some (Raised ''LaunchError'') = Some (Raised ''LaunchError'')"
    using reduce_demo memory_demo by simp
  have c: "reduce_inputs (sum_in_variable demo_incoming) (inputs leaky_object) =
      Inr [(''I'', [40, 3675.3275])] \<and>
    getitems [(''I'', [40, 3675.3275])] (accesses LeakyModel) = Inr [[40, 3675.3275]] \<and>
    getitems (params_dict leaky_object) (params_names (params LeakyModel)) =
      Inr [[-50, -50], [-65, -65]] \<and>
    getitems (internal_states leaky_object) (map fst (internals LeakyModel)) = Inr [[0, 0]] \<and>
    (\<lambda>l. Inl (Raised ''LaunchError'') :: exn + launch)
      \<lparr>l_num_comps = num_comps leaky_object, l_dt = ddt leaky_object,
       l_nsteps = steps leaky_object,
       l_arrays = [[40, 3675.3275]] @ [[-50, -50], [-65, -65]] @ [[0, 0]],
       l_updates = demo_pointers\<rparr> = Inl (Raised ''LaunchError'')"
    by (simp add: LeakyModel_def leaky_object_def leaky_params_def sum_in_variable_def
        demo_incoming_def getitem_def)
  from run_step_propagates [THEN conjunct1, THEN mp, OF a, of None 128 demo_pointers LeakyModel Inr]
    run_step_propagates [THEN conjunct2, THEN conjunct1, THEN mp, OF b, of 128]
    run_step_propagates [THEN conjunct2, THEN conjunct2, THEN mp, OF c]
  show ?thesis by simp
qed

text \<open>
  Claim C9. When a launch of the Wilson kernel with \<open>nsteps \<ge> 1\<close> has finished, the
  published voltage \<open>g_V[i]\<close>, the persistent voltage \<open>g_internalV[i]\<close> and the
  remembered voltage \<open>g_internalVprev1[i]\<close> of every component \<open>i\<close> are equal.
\<close>

theorem update_publishes_state:
  assumes "0 < total_threads" and "bufs_ok (nat nc) m" and "i < nat nc"
    and "1 \<le> nsteps"
  shows "g_V (fst (update total_threads nc kdt nsteps m)) ! i =
           g_internalV (fst (update total_threads nc kdt nsteps m)) ! i \<and>
         g_internalV (fst (update total_threads nc kdt nsteps m)) ! i =
           g_internalVprev1 (fst (update total_threads nc kdt nsteps m)) ! i"
proof -
  from assms(4) have "0 < nat nsteps" by simp
  then have "loc_Vprev1 (settled kdt nsteps m i) = loc_V (settled kdt nsteps m i)"
    unfolding settled_def by (rule inner_loop_Vprev1)
  with update_holds_settled [OF assms(1-3), of kdt nsteps] show ?thesis
    by (simp add: holds_settled_def cell_def Let_def)
qed

theorem update_publishes_state_witness:
  "g_V (fst (update 128 2 0.1 2 mem2)) ! 0 = g_internalV (fst (update 128 2 0.1 2 mem2)) ! 0 \<and>
   g_internalV (fst (update 128 2 0.1 2 mem2)) ! 0 =
     g_internalVprev1 (fst (update 128 2 0.1 2 mem2)) ! 0"
  using update_publishes_state [of 128 2 mem2 0 2 "0.1"] by (simp add: bufs_ok_def mem2_def)

text \<open>
  Claim C10. For every component, a launch of the Wilson kernel leaves in \<open>g_spike_state\<close>
  the value 1 when at least one inner sub-step of the round detected a local voltage maximum
  above 20 (\<open>Vprev2 \<le> Vprev1\<close>, \<open>Vprev1 \<ge> V\<close> and \<open>Vprev1 > 20\<close>), and the value 0
  otherwise; several detections within one round give the single value 1. On \<open>mem2\<close> with
  two sub-steps, component 1 counts two detections and publishes 1, component 0 detects
  nothing and publishes 0.
\<close>

theorem update_spike_state:
  assumes "0 < total_threads" and "bufs_ok (nat nc) m" and "i < nat nc"
  shows "g_spike_state (fst (update total_threads nc kdt nsteps m)) ! i =
           (if spike_detected kdt nsteps m i then 1 else 0)"
proof -
  have "0 < loc_spike (settled kdt nsteps m i) \<longleftrightarrow> spike_detected kdt nsteps m i"
    using inner_loop_spike_iff [of "load_locals m i" "nat nsteps" kdt "g_I m ! i"]
    by (auto simp: settled_def spike_detected_def load_locals_def)
  with update_holds_settled [OF assms, of kdt nsteps] show ?thesis
    by (simp add: holds_settled_def cell_def Let_def)
qed

theorem update_spike_state_witness:
  "loc_spike (settled 0.1 2 mem2 1) = 2 \<and> spike_detected 0.1 2 mem2 1 \<and>
   g_spike_state (fst (update 128 2 0.1 2 mem2)) ! 1 = 1 \<and>
   \<not> spike_detected 0.1 2 mem2 0 \<and>
   g_spike_state (fst (update 128 2 0.1 2 mem2)) ! 0 = 0"
proof -
  have "loc_spike (settled 0.1 2 mem2 1) = 2"
    by (simp add: settled_def load_locals_def mem2_def substep_def next_V_def next_R_def
        local_max_def eval_nat_numeral)
  moreover have "spike_detected 0.1 2 mem2 1"
    by (simp add: spike_detected_def lessThan_Suc load_locals_def mem2_def substep_def
        next_V_def next_R_def local_max_def eval_nat_numeral)
  moreover have "\<not> spike_detected 0.1 2 mem2 0"
    by (simp add: spike_detected_def lessThan_Suc load_locals_def mem2_def substep_def
        next_V_def next_R_def local_max_def eval_nat_numeral)
  ultimately show ?thesis
    using update_spike_state [of 128 2 mem2 1 "0.1" 2] update_spike_state [of 128 2 mem2 0 "0.1" 2]
    by (simp add: bufs_ok_def mem2_def)
qed

end
